theory Spec2Isabelle
  imports Main "HOL-Library.Word"
begin

unbundle bit_operations_syntax

section \<open>Parameters (params.go)\<close>

type_synonym u8 = "8 word"
type_synonym u16 = "16 word"
type_synonym u32 = "32 word"
type_synonym u64 = "64 word"

abbreviation (input) SymSize :: nat where "SymSize \<equiv> 32"
abbreviation (input) kyberN :: nat where "kyberN \<equiv> 256"
abbreviation (input) kyberQ :: "'a::numeral" where "kyberQ \<equiv> 7681"
abbreviation (input) polySize :: nat where "polySize \<equiv> 416"
abbreviation (input) polyCompressedSize :: nat where "polyCompressedSize \<equiv> 96"
abbreviation (input) compressedCoeffSize :: nat where "compressedCoeffSize \<equiv> 352"

section \<open>Modular reduction (reduce.go)\<close>

abbreviation (input) qinv :: "'a::numeral" where "qinv \<equiv> 7679"
abbreviation (input) rlog :: nat where "rlog \<equiv> 18"

text \<open>Montgomery reduction: \<open>uint32\<close> in, \<open>uint16\<close> out; every step wraps at 32 bits.\<close>

definition montgomeryReduce :: "u32 \<Rightarrow> u16" where
  "montgomeryReduce a =
     (let u = a * qinv;
          u = u AND (push_bit rlog 1 - 1);
          u = u * kyberQ;
          a = a + u
      in ucast (drop_bit rlog a))"

text \<open>Barrett reduction on \<open>uint16\<close>.\<close>

definition barrettReduce :: "u16 \<Rightarrow> u16" where
  "barrettReduce a =
     (let u = (ucast (drop_bit 13 a) :: u32);
          u = u * kyberQ
      in a - ucast u)"

text \<open>Full reduction: the \<open>int16\<close> arithmetic shift by 15 is the sign mask.\<close>

definition freeze :: "u16 \<Rightarrow> u16" where
  "freeze x =
     (let r = barrettReduce x;
          m = r - kyberQ;
          c = signed_drop_bit 15 m
      in m XOR ((r XOR m) AND c))"

section \<open>Polynomials (poly.go)\<close>

text \<open>
  A \<open>poly\<close> is the array \<open>coeffs [kyberN]uint16\<close>; it is modelled by the list of its
  coefficients.  The serialisation routines write consecutive groups of bytes into the
  destination slice; the model returns the bytes written, in order.
\<close>

type_synonym poly = "u16 list"

abbreviation (input) byte :: "'a::len word \<Rightarrow> u8" where "byte w \<equiv> ucast w"
abbreviation (input) uint16 :: "'a::len word \<Rightarrow> u16" where "uint16 w \<equiv> ucast w"
abbreviation (input) uint32 :: "'a::len word \<Rightarrow> u32" where "uint32 w \<equiv> ucast w"
abbreviation (input) uint64 :: "'a::len word \<Rightarrow> u64" where "uint64 w \<equiv> ucast w"

text \<open>\<open>poly.compress\<close>: one iteration of the outer loop produces three bytes.\<close>

definition poly_compress_group :: "poly \<Rightarrow> nat \<Rightarrow> u8 list" where
  "poly_compress_group p i =
     (let t = map (\<lambda>j. uint32 (((push_bit 3 (freeze (p ! (i + j))) + 3840) div kyberQ) AND 7)) [0..<8]
      in [ byte (t ! 0 OR push_bit 3 (t ! 1) OR push_bit 6 (t ! 2)),
           byte (drop_bit 2 (t ! 2) OR push_bit 1 (t ! 3) OR push_bit 4 (t ! 4) OR push_bit 7 (t ! 5)),
           byte (drop_bit 1 (t ! 5) OR push_bit 2 (t ! 6) OR push_bit 5 (t ! 7)) ])"

definition poly_compress :: "poly \<Rightarrow> u8 list" where
  "poly_compress p = concat (map (\<lambda>g. poly_compress_group p (8 * g)) [0..<kyberN div 8])"

text \<open>\<open>poly.decompress\<close>: one iteration reads three bytes at \<open>off\<close> and yields eight coefficients.\<close>

definition poly_decompress_group :: "u8 list \<Rightarrow> nat \<Rightarrow> u16 list" where
  "poly_decompress_group a off =
     [ drop_bit 3 ((uint16 (a ! off AND 7) * kyberQ) + 4),
       drop_bit 3 (((uint16 (drop_bit 3 (a ! off)) AND 7) * kyberQ) + 4),
       drop_bit 3 (((uint16 (drop_bit 6 (a ! off)) OR (uint16 (push_bit 2 (a ! (off + 1))) AND 4)) * kyberQ) + 4),
       drop_bit 3 (((uint16 (drop_bit 1 (a ! (off + 1))) AND 7) * kyberQ) + 4),
       drop_bit 3 (((uint16 (drop_bit 4 (a ! (off + 1))) AND 7) * kyberQ) + 4),
       drop_bit 3 (((uint16 (drop_bit 7 (a ! (off + 1))) OR (uint16 (push_bit 1 (a ! (off + 2))) AND 6)) * kyberQ) + 4),
       drop_bit 3 (((uint16 (drop_bit 2 (a ! (off + 2))) AND 7) * kyberQ) + 4),
       drop_bit 3 ((uint16 (drop_bit 5 (a ! (off + 2))) * kyberQ) + 4) ]"

definition poly_decompress :: "u8 list \<Rightarrow> poly" where
  "poly_decompress a = concat (map (\<lambda>g. poly_decompress_group a (3 * g)) [0..<kyberN div 8])"

text \<open>\<open>poly.toBytes\<close>: thirteen bytes for each group of eight frozen coefficients.\<close>

definition poly_toBytes_group :: "poly \<Rightarrow> nat \<Rightarrow> u8 list" where
  "poly_toBytes_group p i =
     (let t = map (\<lambda>j. freeze (p ! (8 * i + j))) [0..<8]
      in [ byte (t ! 0 AND 0xff),
           byte (drop_bit 8 (t ! 0) OR push_bit 5 (t ! 1 AND 0x07)),
           byte (drop_bit 3 (t ! 1) AND 0xff),
           byte (drop_bit 11 (t ! 1) OR push_bit 2 (t ! 2 AND 0x3f)),
           byte (drop_bit 6 (t ! 2) OR push_bit 7 (t ! 3 AND 0x01)),
           byte (drop_bit 1 (t ! 3) AND 0xff),
           byte (drop_bit 9 (t ! 3) OR push_bit 4 (t ! 4 AND 0x0f)),
           byte (drop_bit 4 (t ! 4) AND 0xff),
           byte (drop_bit 12 (t ! 4) OR push_bit 1 (t ! 5 AND 0x7f)),
           byte (drop_bit 7 (t ! 5) OR push_bit 6 (t ! 6 AND 0x03)),
           byte (drop_bit 2 (t ! 6) AND 0xff),
           byte (drop_bit 10 (t ! 6) OR push_bit 3 (t ! 7 AND 0x1f)),
           byte (drop_bit 5 (t ! 7)) ])"

definition poly_toBytes :: "poly \<Rightarrow> u8 list" where
  "poly_toBytes p = concat (map (poly_toBytes_group p) [0..<kyberN div 8])"

text \<open>\<open>poly.fromBytes\<close>.\<close>

definition poly_fromBytes_group :: "u8 list \<Rightarrow> nat \<Rightarrow> u16 list" where
  "poly_fromBytes_group a i =
     [ uint16 (a ! (13 * i + 0)) OR push_bit 8 (uint16 (a ! (13 * i + 1)) AND 0x1f),
       drop_bit 5 (uint16 (a ! (13 * i + 1))) OR push_bit 3 (uint16 (a ! (13 * i + 2))) OR push_bit 11 (uint16 (a ! (13 * i + 3)) AND 0x03),
       drop_bit 2 (uint16 (a ! (13 * i + 3))) OR push_bit 6 (uint16 (a ! (13 * i + 4)) AND 0x7f),
       drop_bit 7 (uint16 (a ! (13 * i + 4))) OR push_bit 1 (uint16 (a ! (13 * i + 5))) OR push_bit 9 (uint16 (a ! (13 * i + 6)) AND 0x0f),
       drop_bit 4 (uint16 (a ! (13 * i + 6))) OR push_bit 4 (uint16 (a ! (13 * i + 7))) OR push_bit 12 (uint16 (a ! (13 * i + 8)) AND 0x01),
       drop_bit 1 (uint16 (a ! (13 * i + 8))) OR push_bit 7 (uint16 (a ! (13 * i + 9)) AND 0x3f),
       drop_bit 6 (uint16 (a ! (13 * i + 9))) OR push_bit 2 (uint16 (a ! (13 * i + 10))) OR push_bit 10 (uint16 (a ! (13 * i + 11)) AND 0x07),
       drop_bit 3 (uint16 (a ! (13 * i + 11))) OR push_bit 5 (uint16 (a ! (13 * i + 12))) ]"

definition poly_fromBytes :: "u8 list \<Rightarrow> poly" where
  "poly_fromBytes a = concat (map (poly_fromBytes_group a) [0..<kyberN div 8])"

text \<open>\<open>poly.fromMsg\<close>: the mask is the two's complement negation of the message bit.\<close>

definition poly_fromMsg :: "u8 list \<Rightarrow> poly" where
  "poly_fromMsg msg =
     concat (map (\<lambda>i. map (\<lambda>j. (let mask = - (drop_bit j (uint16 (msg ! i)) AND 1)
                                  in mask AND 3841)) [0..<8]) [0..<SymSize])"



text \<open>\<open>poly.add\<close> and \<open>poly.sub\<close>, coefficient by coefficient.\<close>

definition poly_add :: "poly \<Rightarrow> poly \<Rightarrow> poly" where
  "poly_add a b = map (\<lambda>i. barrettReduce (a ! i + b ! i)) [0..<kyberN]"


section \<open>Vectors of polynomials (polyvec.go)\<close>

text \<open>A \<open>polyVec\<close> is the slice \<open>vec []*poly\<close> of its \<open>k\<close> polynomials.\<close>

type_synonym polyVec = "poly list"

text \<open>\<open>polyVec.compress\<close>: eleven bytes for each group of eight coefficients.\<close>

definition polyVec_compress_group :: "poly \<Rightarrow> nat \<Rightarrow> u8 list" where
  "polyVec_compress_group vec j =
     (let t = map (\<lambda>k. uint16 ((((push_bit 11 (uint32 (freeze (vec ! (8 * j + k))))) + 3840) div kyberQ) AND 0x7ff)) [0..<8]
      in [ byte (t ! 0 AND 0xff),
           byte (drop_bit 8 (t ! 0) OR push_bit 3 (t ! 1 AND 0x1f)),
           byte (drop_bit 5 (t ! 1) OR push_bit 6 (t ! 2 AND 0x03)),
           byte (drop_bit 2 (t ! 2) AND 0xff),
           byte (drop_bit 10 (t ! 2) OR push_bit 1 (t ! 3 AND 0x7f)),
           byte (drop_bit 7 (t ! 3) OR push_bit 4 (t ! 4 AND 0x0f)),
           byte (drop_bit 4 (t ! 4) OR push_bit 7 (t ! 5 AND 0x01)),
           byte (drop_bit 1 (t ! 5) AND 0xff),
           byte (drop_bit 9 (t ! 5) OR push_bit 2 (t ! 6 AND 0x3f)),
           byte (drop_bit 6 (t ! 6) OR push_bit 5 (t ! 7 AND 0x07)),
           byte (drop_bit 3 (t ! 7)) ])"

definition polyVec_compress_poly :: "poly \<Rightarrow> u8 list" where
  "polyVec_compress_poly vec = concat (map (polyVec_compress_group vec) [0..<kyberN div 8])"

definition polyVec_compress :: "polyVec \<Rightarrow> u8 list" where
  "polyVec_compress v = concat (map polyVec_compress_poly v)"

text \<open>\<open>polyVec.decompress\<close>, reading at \<open>off + 11 * j\<close>.\<close>

definition polyVec_decompress_group :: "u8 list \<Rightarrow> nat \<Rightarrow> nat \<Rightarrow> u16 list" where
  "polyVec_decompress_group a off j =
     [ uint16 (drop_bit 11 (((uint32 (a ! (off + 11 * j + 0)) OR push_bit 8 (uint32 (a ! (off + 11 * j + 1)) AND 0x07)) * kyberQ) + 1024)),
       uint16 (drop_bit 11 (((drop_bit 3 (uint32 (a ! (off + 11 * j + 1))) OR push_bit 5 (uint32 (a ! (off + 11 * j + 2)) AND 0x3f)) * kyberQ) + 1024)),
       uint16 (drop_bit 11 (((drop_bit 6 (uint32 (a ! (off + 11 * j + 2))) OR push_bit 2 (uint32 (a ! (off + 11 * j + 3)) AND 0xff) OR push_bit 10 (uint32 (a ! (off + 11 * j + 4)) AND 0x01)) * kyberQ) + 1024)),
       uint16 (drop_bit 11 (((drop_bit 1 (uint32 (a ! (off + 11 * j + 4))) OR push_bit 7 (uint32 (a ! (off + 11 * j + 5)) AND 0x0f)) * kyberQ) + 1024)),
       uint16 (drop_bit 11 (((drop_bit 4 (uint32 (a ! (off + 11 * j + 5))) OR push_bit 4 (uint32 (a ! (off + 11 * j + 6)) AND 0x7f)) * kyberQ) + 1024)),
       uint16 (drop_bit 11 (((drop_bit 7 (uint32 (a ! (off + 11 * j + 6))) OR push_bit 1 (uint32 (a ! (off + 11 * j + 7)) AND 0xff) OR push_bit 9 (uint32 (a ! (off + 11 * j + 8)) AND 0x03)) * kyberQ) + 1024)),
       uint16 (drop_bit 11 (((drop_bit 2 (uint32 (a ! (off + 11 * j + 8))) OR push_bit 6 (uint32 (a ! (off + 11 * j + 9)) AND 0x1f)) * kyberQ) + 1024)),
       uint16 (drop_bit 11 (((drop_bit 5 (uint32 (a ! (off + 11 * j + 9))) OR push_bit 3 (uint32 (a ! (off + 11 * j + 10)) AND 0xff)) * kyberQ) + 1024)) ]"

definition polyVec_decompress_poly :: "u8 list \<Rightarrow> nat \<Rightarrow> poly" where
  "polyVec_decompress_poly a off = concat (map (polyVec_decompress_group a off) [0..<kyberN div 8])"

text \<open>The receiver holds \<open>k\<close> polynomials; \<open>off\<close> advances by \<open>compressedCoeffSize\<close>.\<close>

definition polyVec_decompress :: "nat \<Rightarrow> u8 list \<Rightarrow> polyVec" where
  "polyVec_decompress k a = map (\<lambda>i. polyVec_decompress_poly a (i * compressedCoeffSize)) [0..<k]"

definition polyVec_toBytes :: "polyVec \<Rightarrow> u8 list" where
  "polyVec_toBytes v = concat (map poly_toBytes v)"

definition polyVec_fromBytes :: "nat \<Rightarrow> u8 list \<Rightarrow> polyVec" where
  "polyVec_fromBytes k a = map (\<lambda>i. poly_fromBytes (drop (i * polySize) a)) [0..<k]"

definition polyVec_add :: "polyVec \<Rightarrow> polyVec \<Rightarrow> polyVec" where
  "polyVec_add a b = map (\<lambda>i. poly_add (a ! i) (b ! i)) [0..<length a]"

definition polyVec_compressedSize :: "polyVec \<Rightarrow> nat" where
  "polyVec_compressedSize v = length v * compressedCoeffSize"

section \<open>Twiddle tables\<close>

text \<open>
  The three tables the transforms read are constants of the package that the transform
  code refers to by name.  They are the reference tables of the parameter set
  \<open>n = 256\<close>, \<open>q = 7681\<close>, \<open>R = 2 ^ 18\<close>, generated from \<open>\<psi> = 62\<close>, the least primitive
  \<open>512\<close>-th root of unity modulo \<open>q\<close>, with bit-reversed indexing (\<open>brv\<close> reverses eight bits).
\<close>

text \<open>Modelled from the spec: the table \<open>zetas\<close>; entry \<open>i\<close> is \<open>\<psi> ^ brv i * R mod q\<close>.\<close>

definition zetas :: "u16 list" where
  "zetas =
   [
     990, 7427, 2634, 6819, 578, 3281, 2143, 1095, 484, 6362, 3336, 5382, 6086, 3823, 877, 5656,
     3583, 7010, 6414, 263, 1285, 291, 7143, 7338, 1581, 5134, 5184, 5932, 4042, 5775, 2468, 3,
     606, 729, 5383, 962, 3240, 7548, 5129, 7653, 5929, 4965, 2461, 641, 1584, 2666, 1142, 157,
     7407, 5222, 5602, 5142, 6140, 5485, 4931, 1559, 2085, 5284, 2056, 3538, 7269, 3535, 7190, 1957,
     3465, 6792, 1538, 4664, 2023, 7643, 3660, 7673, 1694, 6905, 3995, 3475, 5939, 1859, 6910, 4434,
     1019, 1492, 7087, 4761, 657, 4859, 5798, 2640, 1693, 2607, 2782, 5400, 6466, 1010, 957, 3851,
     2121, 6392, 7319, 3367, 3659, 3375, 6430, 7583, 1549, 5856, 4773, 6084, 5544, 1650, 3997, 4390,
     6722, 2915, 4245, 2635, 6128, 7676, 5737, 1616, 3457, 3132, 7196, 4702, 6239, 851, 2122, 3009,
     7613, 7295, 2007, 323, 5112, 3716, 2289, 6442, 6965, 2713, 7126, 3401, 963, 6596, 607, 5027,
     7078, 4484, 5937, 944, 2860, 2680, 5049, 1777, 5850, 3387, 6487, 6777, 4812, 4724, 7077, 186,
     6848, 6793, 3463, 5877, 1174, 7116, 3077, 5945, 6591, 590, 6643, 1337, 6036, 3991, 1675, 2053,
     6055, 1162, 1679, 3883, 4311, 2106, 6163, 4486, 6374, 5006, 4576, 4288, 5180, 4102, 282, 6119,
     7443, 6330, 3184, 4971, 2530, 5325, 4171, 7185, 5175, 5655, 1898, 382, 7211, 43, 5965, 6073,
     1730, 332, 1577, 3304, 2329, 1699, 6150, 2379, 5113, 333, 3502, 4517, 1480, 1172, 5567, 651,
     925, 4573, 599, 1367, 4109, 1863, 6929, 1605, 3866, 2065, 4048, 839, 5764, 2447, 2022, 3345,
     1990, 4067, 2036, 2069, 3567, 7371, 2368, 339, 6947, 2159, 654, 7327, 2768, 6676, 987, 2214
   ]"

text \<open>Modelled from the spec: the table \<open>omegasInvBitrevMontgomery\<close>; entry \<open>i\<close> is
  \<open>(\<psi>\<^sup>2) ^ (- brv (2 * i)) * R mod q\<close> (the transform reads indices below 128).\<close>

definition omegasInvBitrevMontgomery :: "u16 list" where
  "omegasInvBitrevMontgomery =
   [
     990, 254, 862, 5047, 6586, 5538, 4400, 7103, 2025, 6804, 3858, 1595, 2299, 4345, 1319, 7197,
     7678, 5213, 1906, 3639, 1749, 2497, 2547, 6100, 343, 538, 7390, 6396, 7418, 1267, 671, 4098,
     5724, 491, 4146, 412, 4143, 5625, 2397, 5596, 6122, 2750, 2196, 1541, 2539, 2079, 2459, 274,
     7524, 6539, 5015, 6097, 7040, 5220, 2716, 1752, 28, 2552, 133, 4441, 6719, 2298, 6952, 7075,
     4672, 5559, 6830, 1442, 2979, 485, 4549, 4224, 6065, 1944, 5, 1553, 5046, 3436, 4766, 959,
     3291, 3684, 6031, 2137, 1597, 2908, 1825, 6132, 98, 1251, 4306, 4022, 4314, 362, 1289, 5560,
     3830, 6724, 6671, 1215, 2281, 4899, 5074, 5988, 5041, 1883, 2822, 7024, 2920, 594, 6189, 6662,
     3247, 771, 5822, 1742, 4206, 3686, 776, 5987, 8, 4021, 38, 5658, 3017, 6143, 889, 4216
   ]"

text \<open>Modelled from the spec: the table \<open>psisInvMontgomery\<close>; entry \<open>i\<close> is
  \<open>\<psi> ^ (- i) * n\<^sup>-\<^sup>1 * R mod q\<close>.\<close>

definition psisInvMontgomery :: "u16 list" where
  "psisInvMontgomery =
   [
     1024, 4972, 5779, 6907, 4943, 4168, 315, 5580, 90, 497, 1123, 142, 4710, 5527, 2443, 4871,
     698, 2489, 2394, 4003, 684, 2241, 2390, 7224, 5072, 2064, 4741, 1687, 6841, 482, 7441, 1235,
     2126, 4742, 2802, 5744, 6287, 4933, 699, 3604, 1297, 2127, 5857, 1705, 3868, 3779, 4397, 2177,
     159, 622, 2240, 1275, 640, 6948, 4572, 5277, 209, 2605, 1157, 7328, 5817, 3191, 1662, 2009,
     4864, 574, 2487, 164, 6197, 4436, 7257, 3462, 4268, 4281, 3414, 4515, 3170, 1290, 2003, 5855,
     7156, 6062, 7531, 1732, 3249, 4884, 7512, 3590, 1049, 2123, 1397, 6093, 3691, 6130, 6541, 3946,
     6258, 3322, 1788, 4241, 4900, 2309, 1400, 1757, 400, 502, 6698, 2338, 3011, 668, 7444, 4580,
     6516, 6795, 2959, 4136, 3040, 2279, 6355, 3943, 2913, 6613, 7416, 4084, 6508, 5556, 4054, 3782,
     61, 6567, 2212, 779, 632, 5709, 5667, 4923, 4911, 6893, 4695, 4164, 3536, 2287, 7594, 2848,
     3267, 1911, 3128, 546, 1991, 156, 4958, 5531, 6903, 483, 875, 138, 250, 2234, 2266, 7222,
     2842, 4258, 812, 6703, 232, 5207, 6650, 2585, 1900, 6225, 4932, 7265, 4701, 3173, 4635, 6393,
     227, 7313, 4454, 4284, 6759, 1224, 5223, 1447, 395, 2608, 4502, 4037, 189, 3348, 54, 6443,
     2210, 6230, 2826, 1780, 3002, 5995, 1955, 6102, 6045, 3938, 5019, 4417, 1434, 1262, 1507, 5847,
     5917, 7157, 7177, 6434, 7537, 741, 4348, 1309, 145, 374, 2236, 4496, 5028, 6771, 6923, 7421,
     1978, 1023, 3857, 6876, 1102, 7451, 4704, 6518, 1344, 765, 384, 5705, 1207, 1630, 4734, 1563,
     6839, 5933, 1954, 4987, 7142, 5814, 7527, 4953, 7637, 4707, 2182, 5734, 2818, 541, 4097, 5641
   ]"

section \<open>Number-theoretic transform (ntt.go)\<close>

text \<open>
  \<open>nttRef\<close> works in place on the array of 256 coefficients.  One butterfly reads
  \<open>p[j]\<close> and \<open>p[j + distance]\<close> and writes both.
\<close>

definition ntt_butterfly :: "nat \<Rightarrow> u16 \<Rightarrow> nat \<Rightarrow> u16 list \<Rightarrow> u16 list" where
  "ntt_butterfly level zeta j p =
     (let distance = 2 ^ level;
          t = montgomeryReduce (uint32 zeta * uint32 (p ! (j + distance)));
          p = p[j + distance := barrettReduce (p ! j + 4 * kyberQ - t)]
      in if odd level
         then p[j := p ! j + t]
         else p[j := barrettReduce (p ! j + t)])"

text \<open>
  The loop over \<open>start\<close>: the inner loop runs \<open>j\<close> from \<open>start\<close> to \<open>start + distance\<close>, and the
  next \<open>start\<close> is \<open>j + distance\<close> for the value \<open>j = start + distance\<close> that the inner loop
  leaves.  The counter \<open>k\<close> into \<open>zetas\<close> is threaded through.
\<close>

function ntt_starts :: "nat \<Rightarrow> nat \<Rightarrow> nat \<Rightarrow> u16 list \<Rightarrow> nat \<times> u16 list" where
  "ntt_starts level start k p =
     (if start < kyberN
      then (let distance = 2 ^ level;
                zeta = zetas ! k;
                p = fold (ntt_butterfly level zeta) [start..<start + distance] p;
                j = start + distance
            in ntt_starts level (j + distance) (k + 1) p)
      else (k, p))"
  by pat_completeness auto
termination
  apply (relation "measure (\<lambda>(level, start, k, p). kyberN - start)")
   apply auto
  subgoal for level start
    using zero_less_power[of "2::nat" level] by linarith
  done

definition nttRef :: "u16 list \<Rightarrow> u16 list" where
  "nttRef p = snd (fold (\<lambda>level (k, p). ntt_starts level 0 k p) (rev [0..<8]) (1, p))"

text \<open>\<open>invnttRef\<close>: Gentleman-Sande butterflies, then the multiplication by the twist table.\<close>

definition invntt_butterfly :: "nat \<Rightarrow> u32 \<Rightarrow> nat \<Rightarrow> u16 list \<Rightarrow> u16 list" where
  "invntt_butterfly level w j a =
     (let distance = 2 ^ level;
          temp = a ! j;
          a = (if odd level
               then a[j := barrettReduce (temp + a ! (j + distance))]
               else a[j := temp + a ! (j + distance)]);
          t = w * (uint32 temp + 4 * kyberQ - uint32 (a ! (j + distance)))
      in a[j + distance := montgomeryReduce t])"

function invntt_js :: "nat \<Rightarrow> nat \<Rightarrow> nat \<Rightarrow> u16 list \<Rightarrow> u16 list" where
  "invntt_js level j jTwiddle a =
     (if j < kyberN - 1
      then (let distance = 2 ^ level;
                w = uint32 (omegasInvBitrevMontgomery ! jTwiddle)
            in invntt_js level (j + 2 * distance) (jTwiddle + 1) (invntt_butterfly level w j a))
      else a)"
  by pat_completeness auto
termination
  apply (relation "measure (\<lambda>(level, j, jTwiddle, a). kyberN - 1 - j)")
   apply auto
  subgoal for level j
    using zero_less_power[of "2::nat" level] by linarith
  done

definition invntt_level :: "nat \<Rightarrow> u16 list \<Rightarrow> u16 list" where
  "invntt_level level a = fold (\<lambda>start a. invntt_js level start 0 a) [0..<2 ^ level] a"

definition invnttRef :: "u16 list \<Rightarrow> u16 list" where
  "invnttRef a =
     (let a = fold invntt_level [0..<8] a
      in fold (\<lambda>i a. a[i := montgomeryReduce (uint32 (a ! i) * uint32 (psisInvMontgomery ! i))])
           [0..<length psisInvMontgomery] a)"

text \<open>The reference implementation is the one installed (\<open>hardwareAccelImpl = implReference\<close>).\<close>

definition poly_ntt :: "poly \<Rightarrow> poly" where
  "poly_ntt p = nttRef p"

definition poly_invntt :: "poly \<Rightarrow> poly" where
  "poly_invntt p = invnttRef p"

definition polyVec_ntt :: "polyVec \<Rightarrow> polyVec" where
  "polyVec_ntt v = map poly_ntt v"

definition polyVec_invntt :: "polyVec \<Rightarrow> polyVec" where
  "polyVec_invntt v = map poly_invntt v"

text \<open>\<open>pointwiseAccRef\<close>: the accumulator of coefficient \<open>j\<close> is a \<open>uint16\<close>.\<close>

definition pointwiseAccRef :: "polyVec \<Rightarrow> polyVec \<Rightarrow> poly" where
  "pointwiseAccRef a b =
     map (\<lambda>j. (let t = montgomeryReduce (4613 * uint32 (b ! 0 ! j));
                   c = montgomeryReduce (uint32 (a ! 0 ! j) * uint32 t);
                   c = fold (\<lambda>i c. (let t = montgomeryReduce (4613 * uint32 (b ! i ! j))
                                    in c + montgomeryReduce (uint32 (a ! i ! j) * uint32 t)))
                         [1..<length a] c
               in barrettReduce c)) [0..<kyberN]"

definition poly_pointwiseAcc :: "polyVec \<Rightarrow> polyVec \<Rightarrow> poly" where
  "poly_pointwiseAcc a b = pointwiseAccRef a b"

section \<open>Centered binomial distribution (cbd.go)\<close>

datatype error =
    ErrInvalidKeySize
  | ErrInvalidCipherTextSize
  | ErrInvalidPrivateKey
  | ErrInvalidMessageSize
  | ErrParameterSetMismatch
  | EOF
  | ErrUnexpectedEOF

text \<open>
  A call either returns an error value, or panics with an error value or a message, or
  fails a bounds check of the runtime.
\<close>

datatype failure =
    Returned error
  | Panicked error
  | PanickedMsg string
  | IndexOutOfRange

definition loadLittleEndian :: "u8 list \<Rightarrow> nat \<Rightarrow> u64" where
  "loadLittleEndian x bytes = fold (\<lambda>i r. r OR push_bit (8 * i) (uint64 (x ! i))) [0..<bytes] 0"

definition cbd3_group :: "u8 list \<Rightarrow> nat \<Rightarrow> u16 list" where
  "cbd3_group buf i =
     (let t = loadLittleEndian (drop (3 * i) buf) 3;
          d = fold (\<lambda>j d. d + uint32 (drop_bit j t AND 0x249249)) [0..<3] (0 :: u32);
          a = [d AND 0x7, drop_bit 6 d AND 0x7, drop_bit 12 d AND 0x7, drop_bit 18 d AND 0x7];
          b = [drop_bit 3 d AND 0x7, drop_bit 9 d AND 0x7, drop_bit 15 d AND 0x7, drop_bit 21 d]
      in map (\<lambda>n. uint16 (a ! n + kyberQ - b ! n)) [0..<4])"

definition cbd4_group :: "u8 list \<Rightarrow> nat \<Rightarrow> u16 list" where
  "cbd4_group buf i =
     (let t = loadLittleEndian (drop (4 * i) buf) 4;
          d = fold (\<lambda>j d. d + uint32 (drop_bit j t AND 0x11111111)) [0..<4] (0 :: u32);
          a = [d AND 0xf, drop_bit 8 d AND 0xf, drop_bit 16 d AND 0xf, drop_bit 24 d AND 0xf];
          b = [drop_bit 4 d AND 0xf, drop_bit 12 d AND 0xf, drop_bit 20 d AND 0xf, drop_bit 28 d]
      in map (\<lambda>n. uint16 (a ! n + kyberQ - b ! n)) [0..<4])"

definition cbd5_group :: "u8 list \<Rightarrow> nat \<Rightarrow> u16 list" where
  "cbd5_group buf i =
     (let t = loadLittleEndian (drop (5 * i) buf) 5;
          d = fold (\<lambda>j d. d + (drop_bit j t AND 0x0842108421)) [0..<5] (0 :: u64);
          a = [d AND 0x1f, drop_bit 10 d AND 0x1f, drop_bit 20 d AND 0x1f, drop_bit 30 d AND 0x1f];
          b = [drop_bit 5 d AND 0x1f, drop_bit 15 d AND 0x1f, drop_bit 25 d AND 0x1f, drop_bit 35 d]
      in map (\<lambda>n. uint16 (a ! n + kyberQ - b ! n)) [0..<4])"

definition cbdRef :: "u8 list \<Rightarrow> nat \<Rightarrow> failure + poly" where
  "cbdRef buf eta =
     (if eta = 3 then Inr (concat (map (cbd3_group buf) [0..<kyberN div 4]))
      else if eta = 4 then Inr (concat (map (cbd4_group buf) [0..<kyberN div 4]))
      else if eta = 5 then Inr (concat (map (cbd5_group buf) [0..<kyberN div 4]))
      else Inl (PanickedMsg ''kyber: eta must be in {3,4,5}''))"

definition poly_cbd :: "u8 list \<Rightarrow> nat \<Rightarrow> failure + poly" where
  "poly_cbd buf eta = cbdRef buf eta"

section \<open>Parameter sets (params.go)\<close>

record ParameterSet =
  ps_name :: string
  ps_k :: nat
  ps_eta :: nat
  polyVecSize :: nat
  polyVecCompressedSize :: nat
  indcpaMsgSize :: nat
  indcpaPublicKeySize :: nat
  indcpaSecretKeySize :: nat
  indcpaSize :: nat
  publicKeySize :: nat
  secretKeySize :: nat
  cipherTextSize :: nat

definition newParameterSet :: "string \<Rightarrow> nat \<Rightarrow> failure + ParameterSet" where
  "newParameterSet name k =
     (if k = 2 \<or> k = 3 \<or> k = 4
      then (let eta = (if k = 2 then 5 else if k = 3 then 4 else 3);
                polyVecSize = k * polySize;
                polyVecCompressedSize = k * compressedCoeffSize;
                indcpaMsgSize = SymSize;
                indcpaPublicKeySize = polyVecCompressedSize + SymSize;
                indcpaSecretKeySize = polyVecSize;
                indcpaSize = polyVecCompressedSize + polyCompressedSize
            in Inr \<lparr> ps_name = name, ps_k = k, ps_eta = eta,
                     polyVecSize = polyVecSize,
                     polyVecCompressedSize = polyVecCompressedSize,
                     indcpaMsgSize = indcpaMsgSize,
                     indcpaPublicKeySize = indcpaPublicKeySize,
                     indcpaSecretKeySize = indcpaSecretKeySize,
                     indcpaSize = indcpaSize,
                     publicKeySize = indcpaPublicKeySize,
                     secretKeySize = indcpaSecretKeySize + indcpaPublicKeySize + 2 * SymSize,
                     cipherTextSize = indcpaSize \<rparr>)
      else Inl (PanickedMsg ''kyber: k must be in {2,3,4}''))"

definition Kyber512 :: ParameterSet where
  "Kyber512 = projr (newParameterSet ''Kyber-512'' 2)"

definition Kyber768 :: ParameterSet where
  "Kyber768 = projr (newParameterSet ''Kyber-768'' 3)"

definition Kyber1024 :: ParameterSet where
  "Kyber1024 = projr (newParameterSet ''Kyber-1024'' 4)"

definition allParams :: "ParameterSet list" where
  "allParams = [Kyber512, Kyber768, Kyber1024]"

definition Name :: "ParameterSet \<Rightarrow> string" where
  "Name P = ps_name P"

definition PublicKeySize :: "ParameterSet \<Rightarrow> nat" where
  "PublicKeySize P = publicKeySize P"

definition PrivateKeySize :: "ParameterSet \<Rightarrow> nat" where
  "PrivateKeySize P = secretKeySize P"


section \<open>The sponge functions and the random source\<close>

text \<open>
  SHA3-256, SHA3-512, SHAKE-128 and SHAKE-256 come from a library outside the package;
  the model takes them as parameters.  \<open>Shake128 x\<close> is the unbounded output stream of
  SHAKE-128 after absorbing \<open>x\<close>, of which the matrix sampler squeezes a prefix;
  \<open>ShakeSum256 n x\<close> is the first \<open>n\<close> output bytes of SHAKE-256 on \<open>x\<close>.
\<close>

record sha3 =
  Sum256 :: "u8 list \<Rightarrow> u8 list"
  Sum512 :: "u8 list \<Rightarrow> u8 list"
  Shake128 :: "u8 list \<Rightarrow> nat \<Rightarrow> u8"
  ShakeSum256 :: "nat \<Rightarrow> u8 list \<Rightarrow> u8 list"

text \<open>The digests have their fixed sizes.\<close>

definition sha3_sizes :: "sha3 \<Rightarrow> bool" where
  "sha3_sizes H \<longleftrightarrow>
     (\<forall>x. length (Sum256 H x) = 32) \<and> (\<forall>x. length (Sum512 H x) = 64)
     \<and> (\<forall>n x. length (ShakeSum256 H n x) = n)"

text \<open>
  The \<open>io.Reader\<close> is a tape of random bytes; \<open>io.ReadFull\<close> takes the next \<open>n\<close> bytes.
  On a tape that is too short it returns \<open>io.EOF\<close> when it could read no byte at all and
  \<open>io.ErrUnexpectedEOF\<close> when it could read some.
\<close>

type_synonym reader = "u8 list"

definition ReadFull :: "reader \<Rightarrow> nat \<Rightarrow> failure + (u8 list \<times> reader)" where
  "ReadFull rng n =
     (if n \<le> length rng then Inr (take n rng, drop n rng)
      else if rng = [] then Inl (Returned EOF)
      else Inl (Returned ErrUnexpectedEOF))"

text \<open>The builtin \<open>copy(dst, src)\<close> overwrites a prefix of \<open>dst\<close>.\<close>

definition go_copy :: "'a list \<Rightarrow> 'a list \<Rightarrow> 'a list" where
  "go_copy dst src = take (length dst) src @ drop (length src) dst"

text \<open>The slice expression \<open>b[lo:hi]\<close> within the bounds of \<open>b\<close>.\<close>

definition go_slice :: "'a list \<Rightarrow> nat \<Rightarrow> nat \<Rightarrow> 'a list" where
  "go_slice b lo hi = take (hi - lo) (drop lo b)"

fun sequence_sum :: "('e + 'a) list \<Rightarrow> 'e + 'a list" where
  "sequence_sum [] = Inr []"
| "sequence_sum (x # xs) =
     (case x of Inl e \<Rightarrow> Inl e
      | Inr v \<Rightarrow> (case sequence_sum xs of Inl e \<Rightarrow> Inl e | Inr vs \<Rightarrow> Inr (v # vs)))"

section \<open>Noise sampling (poly.go)\<close>

definition poly_getNoise :: "sha3 \<Rightarrow> u8 list \<Rightarrow> u8 \<Rightarrow> nat \<Rightarrow> failure + poly" where
  "poly_getNoise H seed nonce eta =
     (let extSeed = seed @ [nonce];
          buf = ShakeSum256 H (eta * kyberN div 4) extSeed
      in poly_cbd buf eta)"

section \<open>IND-CPA encryption (indcpa.go)\<close>

definition packPublicKey :: "polyVec \<Rightarrow> u8 list \<Rightarrow> u8 list" where
  "packPublicKey pk seed = polyVec_compress pk @ take SymSize seed"

text \<open>
  The unpacking routines read their argument up to a fixed offset; a shorter slice
  fails the runtime's bounds check.
\<close>

definition unpackPublicKey :: "nat \<Rightarrow> u8 list \<Rightarrow> failure + (polyVec \<times> u8 list)" where
  "unpackPublicKey k packedPk =
     (let off = k * compressedCoeffSize
      in if length packedPk < off + SymSize then Inl IndexOutOfRange
         else Inr (polyVec_decompress k packedPk, go_slice packedPk off (off + SymSize)))"

definition packCiphertext :: "polyVec \<Rightarrow> poly \<Rightarrow> u8 list" where
  "packCiphertext b v = polyVec_compress b @ poly_compress v"


definition packSecretKey :: "polyVec \<Rightarrow> u8 list" where
  "packSecretKey sk = polyVec_toBytes sk"


text \<open>
  \<open>genMatrix\<close>, one entry: rejection sampling from the SHAKE-128 stream of \<open>extSeed\<close>.
  \<open>buf\<close> holds four blocks at first; \<open>off\<close> counts the bytes squeezed so far.  The loop
  has no bound: where the stream never yields 256 values below \<open>q\<close> it does not return,
  which is the value \<open>None\<close>.
\<close>

abbreviation (input) shake128Rate :: nat where "shake128Rate \<equiv> 168"
abbreviation (input) maxBlocks :: nat where "maxBlocks \<equiv> 4"

partial_function (option) genMatrix_parse ::
  "(nat \<Rightarrow> u8) \<Rightarrow> nat \<Rightarrow> nat \<Rightarrow> nat \<Rightarrow> u8 list \<Rightarrow> nat \<Rightarrow> poly \<Rightarrow> poly option" where
  "genMatrix_parse xof ctr pos maxPos buf off p =
     (if ctr < kyberN
      then (let val = (uint16 (buf ! pos) OR push_bit 8 (uint16 (buf ! (pos + 1)))) AND 0x1fff;
                p' = (if val < kyberQ then p[ctr := val] else p);
                ctr' = (if val < kyberQ then ctr + 1 else ctr)
            in if pos + 2 = maxPos
               then genMatrix_parse xof ctr' 0 shake128Rate
                      (map (\<lambda>i. xof (off + i)) [0..<shake128Rate] @ drop shake128Rate buf)
                      (off + shake128Rate) p'
               else genMatrix_parse xof ctr' (pos + 2) maxPos buf off p')
      else Some p)"

definition genMatrix_entry :: "sha3 \<Rightarrow> u8 list \<Rightarrow> u8 \<Rightarrow> u8 \<Rightarrow> poly option" where
  "genMatrix_entry H seed byteX byteY =
     (let extSeed = go_copy (replicate SymSize 0) seed @ [byteX, byteY];
          xof = Shake128 H extSeed;
          buf = map xof [0..<shake128Rate * maxBlocks]
      in genMatrix_parse xof 0 0 (shake128Rate * maxBlocks) buf (shake128Rate * maxBlocks)
           (replicate kyberN 0))"

definition genMatrix :: "sha3 \<Rightarrow> nat \<Rightarrow> u8 list \<Rightarrow> bool \<Rightarrow> polyVec list option" where
  "genMatrix H k seed transposed =
     those (map (\<lambda>i. those (map (\<lambda>j.
        if transposed then genMatrix_entry H seed (of_nat i) (of_nat j)
        else genMatrix_entry H seed (of_nat j) (of_nat i)) [0..<k])) [0..<k])"




record indcpaPublicKey =
  pk_packed :: "u8 list"
  pk_h :: "u8 list"

definition indcpaPublicKey_toBytes :: "indcpaPublicKey \<Rightarrow> u8 list" where
  "indcpaPublicKey_toBytes pk = pk_packed pk"

definition indcpaPublicKey_fromBytes :: "sha3 \<Rightarrow> ParameterSet \<Rightarrow> u8 list \<Rightarrow> failure + indcpaPublicKey" where
  "indcpaPublicKey_fromBytes H P b =
     (if length b \<noteq> indcpaPublicKeySize P then Inl (Returned ErrInvalidKeySize)
      else Inr \<lparr> pk_packed = b, pk_h = Sum256 H b \<rparr>)"

record indcpaSecretKey =
  sk_packed :: "u8 list"

definition indcpaSecretKey_fromBytes :: "ParameterSet \<Rightarrow> u8 list \<Rightarrow> failure + indcpaSecretKey" where
  "indcpaSecretKey_fromBytes P b =
     (if length b \<noteq> indcpaSecretKeySize P then Inl (Returned ErrInvalidKeySize)
      else Inr \<lparr> sk_packed = b \<rparr>)"

text \<open>The noise vectors: one \<open>getNoise\<close> per polynomial, the nonce counting up from \<open>nonce\<close>.\<close>

definition noiseVec :: "sha3 \<Rightarrow> u8 list \<Rightarrow> nat \<Rightarrow> nat \<Rightarrow> nat \<Rightarrow> failure + polyVec" where
  "noiseVec H seed nonce eta k =
     sequence_sum (map (\<lambda>i. poly_getNoise H seed (of_nat (nonce + i)) eta) [0..<k])"

text \<open>
  Results of the operations that sample the matrix: \<open>None\<close> when the sampler does not
  return, otherwise a failure or the value.
\<close>

definition indcpaKeyPair ::
  "sha3 \<Rightarrow> ParameterSet \<Rightarrow> reader \<Rightarrow> (failure + ((indcpaPublicKey \<times> indcpaSecretKey) \<times> reader)) option" where
  "indcpaKeyPair H P rng =
     (case ReadFull rng SymSize of
        Inl e \<Rightarrow> Some (Inl e)
      | Inr (d, rng') \<Rightarrow>
          (let buf = Sum512 H d;
               publicSeed = take SymSize buf;
               noiseSeed = drop SymSize buf
           in case genMatrix H (ps_k P) publicSeed False of
                None \<Rightarrow> None
              | Some a \<Rightarrow>
                  (case noiseVec H noiseSeed 0 (ps_eta P) (ps_k P) of
                     Inl e \<Rightarrow> Some (Inl e)
                   | Inr skpv0 \<Rightarrow>
                       (let skpv = polyVec_ntt skpv0
                        in case noiseVec H noiseSeed (ps_k P) (ps_eta P) (ps_k P) of
                             Inl e \<Rightarrow> Some (Inl e)
                           | Inr e \<Rightarrow>
                               (let pkpv = map (\<lambda>i. poly_pointwiseAcc skpv (a ! i)) [0..<ps_k P];
                                    pkpv = polyVec_invntt pkpv;
                                    pkpv = polyVec_add pkpv e;
                                    sk_bytes = go_copy (replicate (indcpaSecretKeySize P) 0) (packSecretKey skpv);
                                    pk_bytes = go_copy (replicate (indcpaPublicKeySize P) 0) (packPublicKey pkpv publicSeed)
                                in Some (Inr ((\<lparr> pk_packed = pk_bytes, pk_h = Sum256 H pk_bytes \<rparr>,
                                               \<lparr> sk_packed = sk_bytes \<rparr>), rng')))))))"

definition indcpaEncrypt ::
  "sha3 \<Rightarrow> ParameterSet \<Rightarrow> u8 list \<Rightarrow> indcpaPublicKey \<Rightarrow> u8 list \<Rightarrow> (failure + u8 list) option" where
  "indcpaEncrypt H P m pk coins =
     (case unpackPublicKey (ps_k P) (pk_packed pk) of
        Inl e \<Rightarrow> Some (Inl e)
      | Inr (pkpv0, seed) \<Rightarrow>
          (if length m < SymSize then Some (Inl IndexOutOfRange)
           else
           (let k = poly_fromMsg m;
                pkpv = polyVec_ntt pkpv0
            in case genMatrix H (ps_k P) seed True of
                 None \<Rightarrow> None
               | Some at \<Rightarrow>
                   (case noiseVec H coins 0 (ps_eta P) (ps_k P) of
                      Inl e \<Rightarrow> Some (Inl e)
                    | Inr sp0 \<Rightarrow>
                        (let sp = polyVec_ntt sp0
                         in case noiseVec H coins (ps_k P) (ps_eta P) (ps_k P) of
                              Inl e \<Rightarrow> Some (Inl e)
                            | Inr ep \<Rightarrow>
                                (let bp = map (\<lambda>i. poly_pointwiseAcc sp (at ! i)) [0..<ps_k P];
                                     bp = polyVec_invntt bp;
                                     bp = polyVec_add bp ep;
                                     v = poly_pointwiseAcc pkpv sp;
                                     v = poly_invntt v
                                 in case poly_getNoise H coins (of_nat (2 * ps_k P)) (ps_eta P) of
                                      Inl e \<Rightarrow> Some (Inl e)
                                    | Inr epp \<Rightarrow>
                                        (let v = poly_add v epp;
                                             v = poly_add v k
                                         in Some (Inr (go_copy (replicate (cipherTextSize P) 0)
                                                         (packCiphertext bp v))))))))))"


definition allocPolyVec :: "ParameterSet \<Rightarrow> polyVec" where
  "allocPolyVec P = replicate (ps_k P) (replicate kyberN 0)"

definition allocMatrix :: "ParameterSet \<Rightarrow> polyVec list" where
  "allocMatrix P = replicate (ps_k P) (allocPolyVec P)"

section \<open>Key encapsulation (kem.go)\<close>

record PublicKey =
  pub_pk :: indcpaPublicKey
  pub_p :: ParameterSet

record PrivateKey =
  priv_PublicKey :: PublicKey
  priv_sk :: indcpaSecretKey
  priv_z :: "u8 list"

definition PrivateKey_Bytes :: "PrivateKey \<Rightarrow> u8 list" where
  "PrivateKey_Bytes sk =
     sk_packed (priv_sk sk) @ pk_packed (pub_pk (priv_PublicKey sk))
       @ pk_h (pub_pk (priv_PublicKey sk)) @ priv_z sk"

definition PrivateKeyFromBytes :: "sha3 \<Rightarrow> ParameterSet \<Rightarrow> u8 list \<Rightarrow> failure + PrivateKey" where
  "PrivateKeyFromBytes H P b =
     (if length b \<noteq> secretKeySize P then Inl (Returned ErrInvalidKeySize)
      else
        (let off = indcpaSecretKeySize P
         in case indcpaPublicKey_fromBytes H P (go_slice b off (off + publicKeySize P)) of
              Inl e \<Rightarrow> Inl e
            | Inr pk \<Rightarrow>
                (let off = off + publicKeySize P
                 in if pk_h pk \<noteq> go_slice b off (off + SymSize) then Inl (Returned ErrInvalidPrivateKey)
                    else
                      (let off = off + SymSize;
                           z = go_copy (replicate SymSize 0) (drop off b)
                       in case indcpaSecretKey_fromBytes P (take (indcpaSecretKeySize P) b) of
                            Inl e \<Rightarrow> Inl e
                          | Inr isk \<Rightarrow>
                              Inr \<lparr> priv_PublicKey = \<lparr> pub_pk = pk, pub_p = P \<rparr>,
                                    priv_sk = isk, priv_z = z \<rparr>))))"

definition PublicKey_Bytes :: "PublicKey \<Rightarrow> u8 list" where
  "PublicKey_Bytes pk = indcpaPublicKey_toBytes (pub_pk pk)"

definition PublicKeyFromBytes :: "sha3 \<Rightarrow> ParameterSet \<Rightarrow> u8 list \<Rightarrow> failure + PublicKey" where
  "PublicKeyFromBytes H P b =
     (case indcpaPublicKey_fromBytes H P b of
        Inl e \<Rightarrow> Inl e
      | Inr pk \<Rightarrow> Inr \<lparr> pub_pk = pk, pub_p = P \<rparr>)"

definition GenerateKeyPair ::
  "sha3 \<Rightarrow> ParameterSet \<Rightarrow> reader \<Rightarrow> (failure + ((PublicKey \<times> PrivateKey) \<times> reader)) option" where
  "GenerateKeyPair H P rng =
     (case indcpaKeyPair H P rng of
        None \<Rightarrow> None
      | Some (Inl e) \<Rightarrow> Some (Inl e)
      | Some (Inr ((pk, sk), rng')) \<Rightarrow>
          (case ReadFull rng' SymSize of
             Inl e \<Rightarrow> Some (Inl e)
           | Inr (z, rng'') \<Rightarrow>
               (let pub = \<lparr> pub_pk = pk, pub_p = P \<rparr>
                in Some (Inr ((pub, \<lparr> priv_PublicKey = pub, priv_sk = sk, priv_z = z \<rparr>), rng'')))))"

definition KEMEncrypt ::
  "sha3 \<Rightarrow> PublicKey \<Rightarrow> reader \<Rightarrow> (failure + ((u8 list \<times> u8 list) \<times> reader)) option" where
  "KEMEncrypt H pk rng =
     (case ReadFull rng SymSize of
        Inl e \<Rightarrow> Some (Inl e)
      | Inr (buf0, rng') \<Rightarrow>
          (let buf = Sum256 H buf0;
               kr = Sum512 H (buf @ pk_h (pub_pk pk))
           in case indcpaEncrypt H (pub_p pk) buf (pub_pk pk) (drop SymSize kr) of
                None \<Rightarrow> None
              | Some (Inl e) \<Rightarrow> Some (Inl e)
              | Some (Inr cipherText) \<Rightarrow>
                  (let hc = Sum256 H cipherText;
                       kr = take SymSize kr @ go_copy (drop SymSize kr) hc;
                       sharedSecret = Sum256 H kr
                   in Some (Inr ((cipherText, sharedSecret), rng')))))"





section \<open>Instances of the sponge parameters\<close>

text \<open>
  An instance of the sponge parameters whose every output byte is zero; it has the
  digest sizes of the real functions and serves to exhibit concrete runs.
\<close>

definition zero_sha3 :: sha3 where
  "zero_sha3 = \<lparr> Sum256 = (\<lambda>x. replicate 32 0), Sum512 = (\<lambda>x. replicate 64 0),
                  Shake128 = (\<lambda>x i. 0), ShakeSum256 = (\<lambda>n x. replicate n 0) \<rparr>"



section \<open>Well-formed private keys\<close>

text \<open>
  The private keys that the package hands out (\<open>GenerateKeyPair\<close>, \<open>PrivateKeyFromBytes\<close>)
  carry the parameter set they were made for, packed keys of that set's sizes, a 32-byte
  hash and a 32-byte \<open>z\<close>.
\<close>

definition valid_PrivateKey :: "ParameterSet \<Rightarrow> PrivateKey \<Rightarrow> bool" where
  "valid_PrivateKey P sk \<longleftrightarrow>
     pub_p (priv_PublicKey sk) = P
     \<and> length (sk_packed (priv_sk sk)) = indcpaSecretKeySize P
     \<and> length (pk_packed (pub_pk (priv_PublicKey sk))) = indcpaPublicKeySize P
     \<and> length (pk_h (pub_pk (priv_PublicKey sk))) = SymSize
     \<and> length (priv_z sk) = SymSize"

section \<open>Closed forms used in the proofs about the transforms\<close>

text \<open>
  The definitions of this section are not translations of functions of the package.
  They name what one butterfly writes and what one level of a transform leaves at each
  index; the proofs show that the loops of \<open>nttRef\<close> and \<open>invnttRef\<close> compute them.
\<close>

definition butterfly_upd ::
  "nat \<Rightarrow> (nat \<Rightarrow> 'a \<Rightarrow> 'a \<Rightarrow> 'a) \<Rightarrow> (nat \<Rightarrow> 'a \<Rightarrow> 'a \<Rightarrow> 'a) \<Rightarrow> nat \<Rightarrow> 'a list \<Rightarrow> 'a list" where
  "butterfly_upd d F G j a = a[j := F j (a ! j) (a ! (j + d)), j + d := G j (a ! j) (a ! (j + d))]"

definition ntt_lo :: "nat \<Rightarrow> u16 \<Rightarrow> u16 \<Rightarrow> u16 \<Rightarrow> u16" where
  "ntt_lo level zeta x y =
     (let t = montgomeryReduce (uint32 zeta * uint32 y)
      in if odd level then x + t else barrettReduce (x + t))"

definition ntt_hi :: "u16 \<Rightarrow> u16 \<Rightarrow> u16 \<Rightarrow> u16" where
  "ntt_hi zeta x y = barrettReduce (x + 4 * kyberQ - montgomeryReduce (uint32 zeta * uint32 y))"

definition ntt_zeta :: "nat \<Rightarrow> nat \<Rightarrow> u16" where
  "ntt_zeta level i = zetas ! (2 ^ (7 - level) + i div 2 ^ (level + 1))"

definition ntt_level_map :: "nat \<Rightarrow> u16 list \<Rightarrow> u16 list" where
  "ntt_level_map level p =
     map (\<lambda>i. if even (i div 2 ^ level)
              then ntt_lo level (ntt_zeta level i) (p ! i) (p ! (i + 2 ^ level))
              else ntt_hi (ntt_zeta level i) (p ! (i - 2 ^ level)) (p ! i)) [0..<kyberN]"

definition invntt_lo :: "nat \<Rightarrow> u16 \<Rightarrow> u16 \<Rightarrow> u16" where
  "invntt_lo level x y = (if odd level then barrettReduce (x + y) else x + y)"

definition invntt_hi :: "u32 \<Rightarrow> u16 \<Rightarrow> u16 \<Rightarrow> u16" where
  "invntt_hi w x y = montgomeryReduce (w * (uint32 x + 4 * kyberQ - uint32 y))"

definition invntt_omega :: "nat \<Rightarrow> nat \<Rightarrow> u32" where
  "invntt_omega level i = uint32 (omegasInvBitrevMontgomery ! (i div 2 ^ (level + 1)))"

definition invntt_level_map :: "nat \<Rightarrow> u16 list \<Rightarrow> u16 list" where
  "invntt_level_map level a =
     map (\<lambda>i. if even (i div 2 ^ level)
              then invntt_lo level (a ! i) (a ! (i + 2 ^ level))
              else invntt_hi (invntt_omega level i) (a ! (i - 2 ^ level)) (a ! i)) [0..<kyberN]"

text \<open>The last loop of \<open>invnttRef\<close>, and the factor by which the inverse levels \<open>0 .. l - 1\<close>
  scale coefficient \<open>i\<close> of the input of the forward level \<open>l - 1\<close>.\<close>

definition psis_mul :: "u16 list \<Rightarrow> u16 list" where
  "psis_mul a = map (\<lambda>i. montgomeryReduce (uint32 (a ! i) * uint32 (psisInvMontgomery ! i))) [0..<kyberN]"

definition ntt_scale :: "nat \<Rightarrow> nat \<Rightarrow> int" where
  "ntt_scale l i = 2 ^ l * 62 ^ (i mod 2 ^ l)"

text \<open>The coefficients of a polynomial lie in \<open>[0, 2q)\<close>.\<close>

definition in_range :: "poly \<Rightarrow> bool" where
  "in_range p \<longleftrightarrow> list_all (\<lambda>c. c < 2 * kyberQ) p"

section \<open>Word arithmetic read as natural numbers\<close>

lemma unat_u8_less: "unat (w::u8) < 256"
  using unsigned_less[of w] by simp

lemma unat_u16_less: "unat (w::u16) < 65536"
  using unsigned_less[of w] by simp

lemma unat_u32_less: "unat (w::u32) < 4294967296"
  using unsigned_less[of w] by simp

lemma unat_ucast_16_32: "unat (ucast (w::u16) :: u32) = unat w"
  using unat_u16_less[of w] by (simp add: unsigned_ucast_eq take_bit_eq_mod)

lemma unat_ucast_32_16: "unat (ucast (w::u32) :: u16) = unat w mod 65536"
  by (simp add: unsigned_ucast_eq take_bit_eq_mod)

lemma unat_and_mask: "unat ((w::'a::len word) AND mask n) = unat w mod 2 ^ n"
  unfolding take_bit_eq_mask[symmetric] unsigned_take_bit_eq by (simp add: take_bit_eq_mod)

section \<open>The reductions as arithmetic\<close>

lemma unat_montgomeryReduce:
  "unat (montgomeryReduce a) =
     ((unat a + ((unat a * 7679) mod 2 ^ 18) * 7681) mod 2 ^ 32 div 2 ^ 18) mod 2 ^ 16"
proof -
  have m: "(push_bit rlog 1 - 1 :: u32) = mask 18"
    by (simp add: mask_eq_exp_minus_1)
  have u: "unat ((a * qinv) AND mask 18) = (unat a * 7679) mod 2 ^ 18"
    by (simp add: unat_and_mask unat_word_ariths mod_mod_cancel)
  have b: "(unat a * 7679) mod 2 ^ 18 * 7681 < (2::nat) ^ 32"
  proof -
    have "(unat a * 7679) mod 2 ^ 18 < (2::nat) ^ 18" by simp
    then have "(unat a * 7679) mod 2 ^ 18 * 7681 < (2::nat) ^ 18 * 7681"
      by (simp del: mod_less_divisor)
    then show ?thesis by simp
  qed
  show ?thesis
    unfolding montgomeryReduce_def Let_def m
    using b
    by (simp add: unat_ucast_32_16 unat_drop_bit_eq drop_bit_eq_div unat_word_ariths u mod_add_right_eq)
qed

lemma montgomery_nat:
  fixes n :: nat
  assumes "n < 7681 * 2 ^ 18"
  defines "t \<equiv> n + ((n * 7679) mod 2 ^ 18) * 7681"
  shows "t mod 2 ^ 18 = 0" and "t < 2 ^ 32" and "t div 2 ^ 18 < 2 * 7681"
    and "(t div 2 ^ 18) * 2 ^ 18 mod 7681 = n mod 7681"
proof -
  have "t mod 2 ^ 18 = (n + n * 7679 * 7681) mod 2 ^ 18"
    unfolding t_def by (metis mod_add_right_eq mod_mult_left_eq)
  also have "n + n * 7679 * 7681 = n * 225 * 2 ^ 18" by simp
  finally show z: "t mod 2 ^ 18 = 0" by simp
  have "(n * 7679) mod 2 ^ 18 < (2::nat) ^ 18" by simp
  then have ub: "(n * 7679) mod 2 ^ 18 * 7681 < (2::nat) ^ 18 * 7681"
    by (simp del: mod_less_divisor)
  with assms(1) have tb: "t < 2 * 7681 * 2 ^ 18" unfolding t_def by simp
  then show "t < 2 ^ 32" by simp
  from tb show "t div 2 ^ 18 < 2 * 7681"
    by (simp add: less_mult_imp_div_less)
  from z have "(t div 2 ^ 18) * 2 ^ 18 = t" by (simp add: mod_eq_0_iff_dvd)
  then show "(t div 2 ^ 18) * 2 ^ 18 mod 7681 = n mod 7681"
    unfolding t_def by simp
qed

lemma montgomeryReduce_range:
  assumes "unat a < 7681 * 2 ^ 18"
  shows "unat (montgomeryReduce a) < 2 * 7681"
    and "(unat (montgomeryReduce a) * 2 ^ 18) mod 7681 = unat a mod 7681"
proof -
  note m = montgomery_nat[OF assms]
  have e: "unat (montgomeryReduce a) = (unat a + ((unat a * 7679) mod 2 ^ 18) * 7681) div 2 ^ 18"
    unfolding unat_montgomeryReduce using m(2,3) by simp
  show "unat (montgomeryReduce a) < 2 * 7681" unfolding e using m(3) .
  show "(unat (montgomeryReduce a) * 2 ^ 18) mod 7681 = unat a mod 7681"
    unfolding e using m(4) .
qed

text \<open>\<open>225\<close> is the inverse of \<open>R = 2 ^ 18\<close> modulo \<open>q\<close>.\<close>

lemma montgomeryReduce_Rinv:
  assumes "unat a < 7681 * 2 ^ 18"
  shows "unat (montgomeryReduce a) mod 7681 = (unat a * 225) mod 7681"
proof -
  define r where "r = unat (montgomeryReduce a)"
  have "(r * 2 ^ 18) mod 7681 = unat a mod 7681"
    unfolding r_def by (rule montgomeryReduce_range(2)[OF assms])
  then have c: "((r * 2 ^ 18) * 225) mod 7681 = (unat a * 225) mod 7681"
    by (rule mod_mult_cong) simp
  have e: "(r * 2 ^ 18) * 225 = r + 7681 * (r * 7679)" by simp
  have m: "(r + 7681 * (r * 7679)) mod 7681 = r mod 7681"
    by (rule mod_mult_self2)
  have "r mod 7681 = (unat a * 225) mod 7681"
    using c[unfolded e] m by linarith
  then show ?thesis unfolding r_def .
qed

lemma unat_barrettReduce:
  "unat (barrettReduce a) = unat a - 7681 * (unat a div 8192)"
proof -
  have d: "unat a div 8192 < 8" using unat_u16_less[of a] by simp
  have u: "unat ((ucast (drop_bit 13 a) :: u32) * kyberQ) = unat a div 8192 * 7681"
    using d by (simp add: unat_word_ariths unat_ucast_16_32 unat_drop_bit_eq drop_bit_eq_div)
  have le: "unat a div 8192 * 7681 \<le> unat a" by simp
  show ?thesis
    unfolding barrettReduce_def Let_def
    using d le by (simp add: unat_sub_if' unat_ucast_32_16 u mult.commute)
qed

lemma barrettReduce_mod: "unat (barrettReduce a) mod 7681 = unat a mod 7681"
proof -
  have le: "7681 * (unat a div 8192) \<le> unat a" by simp
  have "(unat a - 7681 * (unat a div 8192)) mod 7681 = unat a mod 7681"
    using le by (metis le_add_diff_inverse mod_mult_self4)
  then show ?thesis by (simp add: unat_barrettReduce)
qed

lemma barrettReduce_le: "unat (barrettReduce a) \<le> 11768"
proof -
  define d where "d = unat a div 8192"
  have "unat a < 65536" by (rule unat_u16_less)
  then have d: "d \<le> 7" unfolding d_def by simp
  have "unat a = 8192 * d + unat a mod 8192" unfolding d_def by simp
  moreover have "unat a mod 8192 < 8192" by simp
  ultimately have "unat a < 8192 * d + 8192" by linarith
  with d show ?thesis unfolding unat_barrettReduce d_def[symmetric] by linarith
qed

lemma signed_drop_bit_15: "signed_drop_bit 15 (m::u16) = (if bit m 15 then - 1 else 0)"
  by (rule bit_eqI) (auto simp add: bit_signed_drop_bit_iff not_less_eq_eq)

lemma bit15_iff: "bit (m::u16) 15 \<longleftrightarrow> 32768 \<le> unat m"
proof -
  have lt: "unat m < 65536" using unsigned_less[of m] by simp
  have "bit m 15 \<longleftrightarrow> bit (unat m) 15"
    by (simp add: bit_unsigned_iff)
  also have "\<dots> \<longleftrightarrow> odd (unat m div 32768)"
    by (simp add: bit_iff_odd)
  also have "\<dots> \<longleftrightarrow> 32768 \<le> unat m"
  proof (cases "32768 \<le> unat m")
    case True
    then have "unat m div 32768 = 1" using lt by simp
    with True show ?thesis by simp
  next
    case False
    then show ?thesis by simp
  qed
  finally show ?thesis .
qed

lemma unat_freeze: "unat (freeze x) = unat x mod 7681"
proof -
  define r where "r = barrettReduce x"
  have rle: "unat r \<le> 11768" unfolding r_def by (rule barrettReduce_le)
  have rmod: "unat r mod 7681 = unat x mod 7681" unfolding r_def by (rule barrettReduce_mod)
  have fr: "freeze x = (if bit (r - 7681) 15 then r else r - 7681)"
  proof -
    have "(r - 7681) XOR (r XOR (r - 7681)) = r"
      by (rule bit_eqI) (auto simp add: bit_xor_iff)
    then show ?thesis
      unfolding freeze_def Let_def r_def[symmetric] signed_drop_bit_15 by simp
  qed
  have um: "unat (r - 7681) = (if 7681 \<le> unat r then unat r - 7681 else unat r + 57855)"
    by (simp add: unat_sub_if')
  show ?thesis
  proof (cases "7681 \<le> unat r")
    case True
    then have "unat (freeze x) = unat r - 7681"
      using rle by (simp add: fr bit15_iff um)
    moreover have "unat r - 7681 < 7681" using rle by simp
    moreover have "(unat r - 7681) mod 7681 = unat r mod 7681"
      using True by (simp add: le_mod_geq)
    ultimately show ?thesis using rmod by simp
  next
    case False
    then have "unat (freeze x) = unat r"
      by (simp add: fr bit15_iff um)
    then show ?thesis using False rmod by simp
  qed
qed

lemma freeze_less: "unat (freeze x) < 7681"
  by (simp add: unat_freeze)

section \<open>Lists built group by group\<close>

lemma length_concat_map_upt:
  assumes "\<And>g. g < n \<Longrightarrow> length (f g) = m"
  shows "length (concat (map f [0..<n])) = m * n"
  using assms by (induction n) simp_all

lemma concat_map_upt_nth:
  assumes "\<And>g. g < n \<Longrightarrow> length (f g) = m" and "i < n" and "k < m"
  shows "concat (map f [0..<n]) ! (m * i + k) = f i ! k"
  using assms
proof (induction n)
  case 0
  then show ?case by simp
next
  case (Suc n)
  have len: "length (concat (map f [0..<n])) = m * n"
    using Suc.prems(1) by (intro length_concat_map_upt) simp
  show ?case
  proof (cases "i < n")
    case True
    then have "m * i + k < m * n"
    proof -
      have "m * i + k < m * i + m" using Suc.prems(3) by simp
      also have "\<dots> = m * Suc i" by simp
      also have "\<dots> \<le> m * n" using True by (intro mult_le_mono2) simp
      finally show ?thesis .
    qed
    then show ?thesis
      using Suc.IH[OF _ True Suc.prems(3)] Suc.prems(1) len by (simp add: nth_append)
  next
    case False
    then have "i = n" using Suc.prems(2) by simp
    then show ?thesis using len by (simp add: nth_append)
  qed
qed

lemma concat_map_map_upt:
  "concat (map (\<lambda>i. map (\<lambda>j. f (m * i + j)) [0..<m]) [0..<n]) = map f [0..<m * n]"
proof (induction n)
  case 0
  then show ?case by simp
next
  case (Suc n)
  have "map (\<lambda>j. f (m * n + j)) [0..<m] = map f [m * n..<m * n + m]"
    by (simp add: map_add_upt[symmetric] add.commute)
  moreover have "[0..<m * Suc n] = [0..<m * n] @ [m * n..<m * n + m]"
  proof -
    have e: "m * Suc n = m * n + m" by simp
    show ?thesis unfolding e by (rule upt_add_eq_append) simp
  qed
  ultimately show ?case using Suc.IH by (simp del: mult_Suc_right)
qed

lemma map_nth_upt:
  assumes "length p = n"
  shows "map (\<lambda>k. f (p ! k)) [0..<n] = map f p"
proof -
  have "map f p = map f (map ((!) p) [0..<length p])" by (simp only: map_nth)
  also have "\<dots> = map (\<lambda>k. f (p ! k)) [0..<n]" using assms by simp
  finally show ?thesis by simp
qed

lemma upt_0_8: "[0..<8] = [0, 1, 2, 3, 4, 5, 6, 7::nat]"
  by code_simp

lemma upt_0_11: "[0..<11] = [0, 1, 2, 3, 4, 5, 6, 7, 8, 9, 10::nat]"
  by code_simp

lemma upt_0_3: "[0..<3] = [0, 1, 2::nat]"
  by code_simp

section \<open>Bitwise equality of short words\<close>

lemma and_numeral_masks:
  "(w::'a::len word) AND 0x7ff = take_bit 11 w"
  "(w::'a::len word) AND 0xff = take_bit 8 w"
  "(w::'a::len word) AND 0x7f = take_bit 7 w"
  "(w::'a::len word) AND 0x3f = take_bit 6 w"
  "(w::'a::len word) AND 0x1f = take_bit 5 w"
  "(w::'a::len word) AND 0x0f = take_bit 4 w"
  "(w::'a::len word) AND 0x07 = take_bit 3 w"
  "(w::'a::len word) AND 0x03 = take_bit 2 w"
  "(w::'a::len word) AND 0x01 = take_bit 1 w"
  by (simp_all add: take_bit_eq_mask mask_eq_exp_minus_1)

lemma all_less_8:
  "(\<forall>n<8. P n) \<longleftrightarrow> P 0 \<and> P 1 \<and> P 2 \<and> P 3 \<and> P 4 \<and> P 5 \<and> P 6 \<and> P (7::nat)"
  by (simp add: numeral_eq_Suc All_less_Suc conj_ac)

lemma all_less_16:
  "(\<forall>n<16. P n) \<longleftrightarrow> P 0 \<and> P 1 \<and> P 2 \<and> P 3 \<and> P 4 \<and> P 5 \<and> P 6 \<and> P 7 \<and> P
     8 \<and> P 9 \<and> P 10 \<and> P 11 \<and> P 12 \<and> P 13 \<and> P 14 \<and> P
     (15::nat)"
  by (simp add: numeral_eq_Suc All_less_Suc conj_ac)

lemma u16_eq_iff: "(a::u16) = b \<longleftrightarrow> (\<forall>n<16. bit a n = bit b n)"
  by (auto simp add: bit_eq_iff possible_bit_word)

lemma u8_eq_iff: "(a::u8) = b \<longleftrightarrow> (\<forall>n<8. bit a n = bit b n)"
  by (auto simp add: bit_eq_iff possible_bit_word)

lemmas u16_eq_bits = u16_eq_iff[unfolded all_less_16]
lemmas u8_eq_bits = u8_eq_iff[unfolded all_less_8]

lemma take_bit_unat_less:
  fixes w :: "'a::len word"
  assumes "unat w < 2 ^ n"
  shows "take_bit n w = w"
  unfolding word_unat_eq_iff unsigned_take_bit_eq using assms by (simp add: take_bit_eq_mod)

lemma high_bits_clear:
  fixes w :: "'a::len word"
  assumes "take_bit m w = w" and "m \<le> n"
  shows "\<not> bit w n"
  using assms by (metis bit_take_bit_iff not_le)

lemma freeze_13_bits: "take_bit 13 (freeze x) = freeze x"
  using freeze_less[of x] by (intro take_bit_unat_less) simp

lemma freeze_idem: "unat x < 7681 \<Longrightarrow> freeze x = x"
  by (simp add: word_unat_eq_iff unat_freeze)

lemma take_bit_unat_bound:
  fixes w :: "'a::len word"
  assumes "take_bit n w = w"
  shows "unat w < 2 ^ n"
proof -
  have "unat (take_bit n w) = unat w mod 2 ^ n"
    unfolding unsigned_take_bit_eq by (simp add: take_bit_eq_mod)
  then have "unat w = unat w mod 2 ^ n" using assms by simp
  moreover have "unat w mod 2 ^ n < 2 ^ n" by simp
  ultimately show ?thesis by linarith
qed

lemma bit_4_iff: "bit (4::'a::len word) n \<longleftrightarrow> n = 2 \<and> 2 < LENGTH('a)"
proof -
  have e: "(4::'a word) = push_bit 2 1" by simp
  show ?thesis unfolding e bit_push_bit_iff bit_1_iff possible_bit_word by auto
qed

lemma bit_6_iff: "bit (6::'a::len word) n \<longleftrightarrow> (n = 1 \<or> n = 2) \<and> n < LENGTH('a)"
proof -
  have e: "(6::'a word) = push_bit 1 (mask 2)" by (simp add: mask_eq_exp_minus_1)
  show ?thesis unfolding e bit_push_bit_iff bit_mask_iff possible_bit_word by auto
qed

lemma and_4_eq: "(w::'a::len word) AND 4 = push_bit 2 (take_bit 1 (drop_bit 2 w))"
proof (rule bit_eqI)
  fix n
  assume "possible_bit TYPE('a word) n"
  then have n: "n < LENGTH('a)" by (simp add: possible_bit_word)
  have "bit (w AND 4) n \<longleftrightarrow> bit w n \<and> n = 2"
    unfolding bit_and_iff bit_4_iff using n by auto
  also have "\<dots> \<longleftrightarrow> bit (push_bit 2 (take_bit 1 (drop_bit 2 w))) n"
    unfolding bit_push_bit_iff bit_take_bit_iff bit_drop_bit_eq possible_bit_word
    using n by (auto simp add: numeral_2_eq_2)
  finally show "bit (w AND 4) n = bit (push_bit 2 (take_bit 1 (drop_bit 2 w))) n" .
qed

lemma and_6_eq: "(w::'a::len word) AND 6 = push_bit 1 (take_bit 2 (drop_bit 1 w))"
proof (rule bit_eqI)
  fix n
  assume "possible_bit TYPE('a word) n"
  then have n: "n < LENGTH('a)" by (simp add: possible_bit_word)
  have "bit (w AND 6) n \<longleftrightarrow> bit w n \<and> (n = 1 \<or> n = 2)"
    unfolding bit_and_iff bit_6_iff using n by auto
  also have "\<dots> \<longleftrightarrow> bit (push_bit 1 (take_bit 2 (drop_bit 1 w))) n"
    unfolding bit_push_bit_iff bit_take_bit_iff bit_drop_bit_eq possible_bit_word
    using n by (cases "n = 0"; cases "n = 1"; cases "n = 2") (auto simp add: numeral_2_eq_2)
  finally show "bit (w AND 6) n = bit (push_bit 1 (take_bit 2 (drop_bit 1 w))) n" .
qed

lemma u8_high_bits: "8 \<le> n \<Longrightarrow> \<not> bit (b::u8) n"
  by (auto dest: bit_imp_le_length)


lemma all_less_32:
  "(\<forall>n<32. P n) \<longleftrightarrow> P 0 \<and> P 1 \<and> P 2 \<and> P 3 \<and> P 4 \<and> P 5 \<and> P 6 \<and> P 7 \<and> P
     8 \<and> P 9 \<and> P 10 \<and> P 11 \<and> P 12 \<and> P 13 \<and> P 14 \<and> P 15
     \<and> P 16 \<and> P 17 \<and> P 18 \<and> P 19 \<and> P 20 \<and> P 21 \<and> P 22 \<and>
     P 23 \<and> P 24 \<and> P 25 \<and> P 26 \<and> P 27 \<and> P 28 \<and> P 29 \<and> P 30
     \<and> P (31::nat)"
  by (simp add: numeral_eq_Suc All_less_Suc conj_ac)

lemma u32_eq_iff: "(a::u32) = b \<longleftrightarrow> (\<forall>n<32. bit a n = bit b n)"
  by (auto simp add: bit_eq_iff possible_bit_word)

lemmas u32_eq_bits = u32_eq_iff[unfolded all_less_32]


lemma unat_push_bit: "unat (push_bit k (w::'a::len word)) = (unat w * 2 ^ k) mod 2 ^ LENGTH('a)"
  unfolding unsigned_push_bit_eq by (simp add: push_bit_eq_mult take_bit_eq_mod)

lemma unat_ucast_32_16_small: "unat (w::u32) < 65536 \<Longrightarrow> unat (ucast w :: u16) = unat w"
  by (simp add: unat_ucast_32_16)

section \<open>The 13-bit serialisation and its inverse\<close>

lemma length_poly_toBytes_group: "length (poly_toBytes_group p i) = 13"
  by (simp add: poly_toBytes_group_def Let_def)

lemma length_poly_toBytes: "length (poly_toBytes p) = 416"
  unfolding poly_toBytes_def
  using length_concat_map_upt[of 32 "poly_toBytes_group p" 13]
  by (simp add: length_poly_toBytes_group)

lemma length_poly_fromBytes_group: "length (poly_fromBytes_group a i) = 8"
  by (simp add: poly_fromBytes_group_def)

lemma length_poly_fromBytes: "length (poly_fromBytes a) = 256"
  unfolding poly_fromBytes_def
  using length_concat_map_upt[of 32 "poly_fromBytes_group a" 8]
  by (simp add: length_poly_fromBytes_group)

lemma poly_fromBytes_toBytes_group:
  assumes a: "\<And>k. k < 13 \<Longrightarrow> a ! (13 * i + k) = poly_toBytes_group p i ! k"
  shows "poly_fromBytes_group a i = map (\<lambda>j. freeze (p ! (8 * i + j))) [0..<8]"
proof -
  define t0 where "t0 = freeze (p ! (8 * i + 0))"
  define t1 where "t1 = freeze (p ! (8 * i + 1))"
  define t2 where "t2 = freeze (p ! (8 * i + 2))"
  define t3 where "t3 = freeze (p ! (8 * i + 3))"
  define t4 where "t4 = freeze (p ! (8 * i + 4))"
  define t5 where "t5 = freeze (p ! (8 * i + 5))"
  define t6 where "t6 = freeze (p ! (8 * i + 6))"
  define t7 where "t7 = freeze (p ! (8 * i + 7))"
  note t_defs = t0_def t1_def t2_def t3_def t4_def t5_def t6_def t7_def
  have b: "\<And>n. 13 \<le> n \<Longrightarrow> \<not> bit t0 n" "\<And>n. 13 \<le> n \<Longrightarrow> \<not> bit t1 n"
     "\<And>n. 13 \<le> n \<Longrightarrow> \<not> bit t2 n" "\<And>n. 13 \<le> n \<Longrightarrow> \<not> bit t3 n"
     "\<And>n. 13 \<le> n \<Longrightarrow> \<not> bit t4 n" "\<And>n. 13 \<le> n \<Longrightarrow> \<not> bit t5 n"
     "\<And>n. 13 \<le> n \<Longrightarrow> \<not> bit t6 n" "\<And>n. 13 \<le> n \<Longrightarrow> \<not> bit t7 n"
    unfolding t_defs by (rule high_bits_clear[OF freeze_13_bits], assumption)+
  have g: "poly_toBytes_group p i =
      [ byte (t0 AND 0xff),
        byte (drop_bit 8 t0 OR push_bit 5 (t1 AND 0x07)),
        byte (drop_bit 3 t1 AND 0xff),
        byte (drop_bit 11 t1 OR push_bit 2 (t2 AND 0x3f)),
        byte (drop_bit 6 t2 OR push_bit 7 (t3 AND 0x01)),
        byte (drop_bit 1 t3 AND 0xff),
        byte (drop_bit 9 t3 OR push_bit 4 (t4 AND 0x0f)),
        byte (drop_bit 4 t4 AND 0xff),
        byte (drop_bit 12 t4 OR push_bit 1 (t5 AND 0x7f)),
        byte (drop_bit 7 t5 OR push_bit 6 (t6 AND 0x03)),
        byte (drop_bit 2 t6 AND 0xff),
        byte (drop_bit 10 t6 OR push_bit 3 (t7 AND 0x1f)),
        byte (drop_bit 5 t7) ]"
    unfolding poly_toBytes_group_def Let_def t_defs upt_0_8 by simp
  have e:
    "a ! (13 * i + 0) = byte (t0 AND 0xff)"
    "a ! (13 * i + 1) = byte (drop_bit 8 t0 OR push_bit 5 (t1 AND 0x07))"
    "a ! (13 * i + 2) = byte (drop_bit 3 t1 AND 0xff)"
    "a ! (13 * i + 3) = byte (drop_bit 11 t1 OR push_bit 2 (t2 AND 0x3f))"
    "a ! (13 * i + 4) = byte (drop_bit 6 t2 OR push_bit 7 (t3 AND 0x01))"
    "a ! (13 * i + 5) = byte (drop_bit 1 t3 AND 0xff)"
    "a ! (13 * i + 6) = byte (drop_bit 9 t3 OR push_bit 4 (t4 AND 0x0f))"
    "a ! (13 * i + 7) = byte (drop_bit 4 t4 AND 0xff)"
    "a ! (13 * i + 8) = byte (drop_bit 12 t4 OR push_bit 1 (t5 AND 0x7f))"
    "a ! (13 * i + 9) = byte (drop_bit 7 t5 OR push_bit 6 (t6 AND 0x03))"
    "a ! (13 * i + 10) = byte (drop_bit 2 t6 AND 0xff)"
    "a ! (13 * i + 11) = byte (drop_bit 10 t6 OR push_bit 3 (t7 AND 0x1f))"
    "a ! (13 * i + 12) = byte (drop_bit 5 t7)"
    using a[of 0] a[of 1] a[of 2] a[of 3] a[of 4] a[of 5] a[of 6] a[of 7] a[of 8] a[of 9]
      a[of 10] a[of 11] a[of 12]
    unfolding g by simp_all
  have r: "map (\<lambda>j. freeze (p ! (8 * i + j))) [0..<8] = [t0, t1, t2, t3, t4, t5, t6, t7]"
    unfolding t_defs upt_0_8 by simp
  show ?thesis
    unfolding r poly_fromBytes_group_def e list.inject
    by (simp add: u16_eq_bits and_numeral_masks bit_simps b del: One_nat_def) simp
qed

lemma poly_fromBytes_toBytes:
  assumes "length p = 256"
  shows "poly_fromBytes (poly_toBytes p) = map freeze p"
proof -
  have nth: "poly_toBytes p ! (13 * i + k) = poly_toBytes_group p i ! k" if "i < 32" "k < 13" for i k
    unfolding poly_toBytes_def
    using concat_map_upt_nth[of 32 "poly_toBytes_group p" 13 i k] that
    by (simp add: length_poly_toBytes_group)
  have grp: "poly_fromBytes_group (poly_toBytes p) i = map (\<lambda>j. freeze (p ! (8 * i + j))) [0..<8]"
    if "i < 32" for i
    by (rule poly_fromBytes_toBytes_group) (rule nth[OF that])
  have m: "map (poly_fromBytes_group (poly_toBytes p)) [0..<32]
      = map (\<lambda>i. map (\<lambda>j. freeze (p ! (8 * i + j))) [0..<8]) [0..<32]"
    by (rule map_cong[OF refl]) (simp add: grp)
  have "poly_fromBytes (poly_toBytes p)
      = concat (map (\<lambda>i. map (\<lambda>j. freeze (p ! (8 * i + j))) [0..<8]) [0..<32])"
    unfolding poly_fromBytes_def by (simp only: m[symmetric]) simp
  also have "\<dots> = map (\<lambda>k. freeze (p ! k)) [0..<8 * 32]"
    by (rule concat_map_map_upt)
  finally show ?thesis using map_nth_upt[of p 256 freeze] assms by simp
qed

lemma map_freeze_id:
  assumes "\<forall>x\<in>set p. unat x < 7681"
  shows "map freeze p = p"
  using assms by (simp add: map_idI freeze_idem)

lemma drop_concat_map_poly:
  assumes "\<And>p. p \<in> set v \<Longrightarrow> length (f p) = m" and "i < length v"
  shows "take m (drop (i * m) (concat (map f v))) = f (v ! i)"
  using assms
proof (induction v arbitrary: i)
  case Nil
  then show ?case by simp
next
  case (Cons p v)
  show ?case
  proof (cases i)
    case 0
    then show ?thesis using Cons.prems(1)[of p] by simp
  next
    case (Suc j)
    then show ?thesis using Cons.prems Cons.IH[of j] by simp
  qed
qed

lemma poly_fromBytes_take: "poly_fromBytes (take 416 a) = poly_fromBytes a"
proof -
  have "poly_fromBytes_group (take 416 a) i = poly_fromBytes_group a i" if "i < 32" for i
    using that unfolding poly_fromBytes_group_def by simp
  then have m: "map (poly_fromBytes_group (take 416 a)) [0..<32] = map (poly_fromBytes_group a) [0..<32]"
    by (intro map_cong[OF refl]) simp
  have e: "kyberN div 8 = 32" by simp
  show ?thesis unfolding poly_fromBytes_def e m ..
qed

lemma polyVec_fromBytes_toBytes:
  assumes "\<forall>p\<in>set v. length p = 256"
  shows "polyVec_fromBytes (length v) (polyVec_toBytes v) = map (map freeze) v"
proof -
  have "poly_fromBytes (drop (i * 416) (polyVec_toBytes v)) = map freeze (v ! i)"
    if i: "i < length v" for i
  proof -
    have "take 416 (drop (i * 416) (polyVec_toBytes v)) = poly_toBytes (v ! i)"
      unfolding polyVec_toBytes_def
      by (rule drop_concat_map_poly) (simp_all add: length_poly_toBytes i)
    then have "poly_fromBytes (drop (i * 416) (polyVec_toBytes v)) = poly_fromBytes (poly_toBytes (v ! i))"
      using poly_fromBytes_take[of "drop (i * 416) (polyVec_toBytes v)"] by simp
    also have "\<dots> = map freeze (v ! i)"
      using assms i by (intro poly_fromBytes_toBytes) simp
    finally show ?thesis .
  qed
  then have "polyVec_fromBytes (length v) (polyVec_toBytes v) = map (\<lambda>i. map freeze (v ! i)) [0..<length v]"
    unfolding polyVec_fromBytes_def by (intro map_cong[OF refl]) simp
  also have "\<dots> = map (map freeze) v"
    by (rule map_nth_upt) simp
  finally show ?thesis .
qed

section \<open>Compression after decompression\<close>

lemma compress_round_nat:
  fixes v s h :: nat
  assumes "0 < s" and "s \<le> 3840 + h" and "h < 3841"
  shows "(s * ((7681 * v + h) div s) + 3840) div 7681 = v"
proof -
  define d where "d = (7681 * v + h) div s"
  have lo: "s * d \<le> 7681 * v + h" unfolding d_def by simp
  have hi: "7681 * v + h < s * d + s"
    unfolding d_def using assms(1) by (metis add.commute dividend_less_times_div mult.commute)
  have "7681 * v \<le> s * d + 3840" using hi assms(2) by linarith
  moreover have "s * d + 3840 < 7681 * Suc v" using lo assms(3) by simp
  ultimately show ?thesis unfolding d_def[symmetric] by (intro div_nat_eqI) simp_all
qed

lemma compress_coeff3:
  fixes v :: u16
  assumes "take_bit 3 v = v"
  shows "uint32 (((push_bit 3 (freeze (drop_bit 3 (v * 7681 + 4))) + 3840) div 7681) AND 7) = uint32 v"
proof -
  have "unat v < 8"
    using take_bit_unat_bound[OF assms] by simp
  then have "unat v = 0 \<or> unat v = 1 \<or> unat v = 2 \<or> unat v = 3 \<or> unat v = 4 \<or> unat v = 5 \<or> unat v = 6 \<or> unat v = 7"
    by arith
  then have "v = 0 \<or> v = 1 \<or> v = 2 \<or> v = 3 \<or> v = 4 \<or> v = 5 \<or> v = 6 \<or> v = 7"
    by (simp add: word_unat_eq_iff)
  then show ?thesis
    by (elim disjE) (simp_all add: freeze_def barrettReduce_def)
qed

lemma compress_coeff11:
  fixes v :: u32
  assumes "take_bit 11 v = v"
  shows "uint16 (((push_bit 11 (uint32 (freeze (uint16 (drop_bit 11 (v * 7681 + 1024))))) + 3840) div 7681)
           AND 0x7ff) = uint16 v"
proof -
  define n where "n = unat v"
  define d where "d = (7681 * n + 1024) div 2048"
  define x where "x = push_bit 11 (uint32 (freeze (uint16 (drop_bit 11 (v * 7681 + 1024)))))"
  have n: "n < 2048" unfolding n_def using take_bit_unat_bound[OF assms] by simp
  have d: "d < 7681"
  proof -
    have "7681 * n + 1024 < 2048 * 7681" using n by simp
    then show ?thesis unfolding d_def by (simp add: less_mult_imp_div_less)
  qed
  have 1: "unat (v * 7681 + 1024) = 7681 * n + 1024"
    using n by (simp add: unat_word_ariths n_def[symmetric] mult.commute)
  have 2: "unat (drop_bit 11 (v * 7681 + 1024)) = d"
    unfolding unat_drop_bit_eq 1 d_def by (simp add: drop_bit_eq_div)
  have 3: "unat (uint16 (drop_bit 11 (v * 7681 + 1024))) = d"
    using d by (simp add: unat_ucast_32_16 2)
  have 4: "unat (freeze (uint16 (drop_bit 11 (v * 7681 + 1024)))) = d"
    using d by (simp add: unat_freeze 3)
  have 5: "unat x = 2048 * d"
    unfolding x_def using d by (simp add: unat_push_bit unat_ucast_16_32 4 mult.commute)
  have 6: "unat (x + 3840) = 2048 * d + 3840"
    using d by (simp add: unat_word_ariths 5)
  have 7: "unat ((x + 3840) div 7681) = n"
    unfolding unat_div 6 d_def using compress_round_nat[of 2048 1024 n] by simp
  have 8: "unat (((x + 3840) div 7681) AND 0x7ff) = n"
    unfolding and_numeral_masks unsigned_take_bit_eq 7 using n by (simp add: take_bit_eq_mod)
  show ?thesis
    unfolding x_def[symmetric] word_unat_eq_iff unat_ucast_32_16 8 n_def ..
qed

lemma poly_compress_decompress_group:
  assumes d: "\<And>j. j < 8 \<Longrightarrow> p ! (i + j) = poly_decompress_group a off ! j"
  shows "poly_compress_group p i = [a ! off, a ! (off + 1), a ! (off + 2)]"
proof -
  define b0 where "b0 = a ! off"
  define b1 where "b1 = a ! (off + 1)"
  define b2 where "b2 = a ! (off + 2)"
  define v0 where "v0 = uint16 (b0 AND 7)"
  define v1 where "v1 = uint16 (drop_bit 3 b0) AND 7"
  define v2 where "v2 = uint16 (drop_bit 6 b0) OR (uint16 (push_bit 2 b1) AND 4)"
  define v3 where "v3 = uint16 (drop_bit 1 b1) AND 7"
  define v4 where "v4 = uint16 (drop_bit 4 b1) AND 7"
  define v5 where "v5 = uint16 (drop_bit 7 b1) OR (uint16 (push_bit 1 b2) AND 6)"
  define v6 where "v6 = uint16 (drop_bit 2 b2) AND 7"
  define v7 where "v7 = uint16 (drop_bit 5 b2)"
  note v_defs = v0_def v1_def v2_def v3_def v4_def v5_def v6_def v7_def
  define T :: "u16 \<Rightarrow> u32"
    where "T c = uint32 (((push_bit 3 (freeze c) + 3840) div 7681) AND 7)" for c
  have tb: "take_bit 3 v0 = v0" "take_bit 3 v1 = v1" "take_bit 3 v2 = v2" "take_bit 3 v3 = v3"
    "take_bit 3 v4 = v4" "take_bit 3 v5 = v5" "take_bit 3 v6 = v6" "take_bit 3 v7 = v7"
    unfolding v_defs and_4_eq and_6_eq
    by (simp_all add: u16_eq_bits bit_simps and_numeral_masks u8_high_bits del: One_nat_def)
  have ex: "poly_compress_group p i =
      [ byte (T (p ! (i + 0)) OR push_bit 3 (T (p ! (i + 1))) OR push_bit 6 (T (p ! (i + 2)))),
        byte (drop_bit 2 (T (p ! (i + 2))) OR push_bit 1 (T (p ! (i + 3))) OR push_bit 4 (T (p ! (i + 4)))
                OR push_bit 7 (T (p ! (i + 5)))),
        byte (drop_bit 1 (T (p ! (i + 5))) OR push_bit 2 (T (p ! (i + 6))) OR push_bit 5 (T (p ! (i + 7)))) ]"
    by (simp add: poly_compress_group_def Let_def upt_0_8 T_def)
  have pj:
    "p ! (i + 0) = drop_bit 3 (v0 * 7681 + 4)" "p ! (i + 1) = drop_bit 3 (v1 * 7681 + 4)"
    "p ! (i + 2) = drop_bit 3 (v2 * 7681 + 4)" "p ! (i + 3) = drop_bit 3 (v3 * 7681 + 4)"
    "p ! (i + 4) = drop_bit 3 (v4 * 7681 + 4)" "p ! (i + 5) = drop_bit 3 (v5 * 7681 + 4)"
    "p ! (i + 6) = drop_bit 3 (v6 * 7681 + 4)" "p ! (i + 7) = drop_bit 3 (v7 * 7681 + 4)"
    using d[of 0] d[of 1] d[of 2] d[of 3] d[of 4] d[of 5] d[of 6] d[of 7]
    unfolding poly_decompress_group_def v_defs b0_def b1_def b2_def by simp_all
  have Tj:
    "T (drop_bit 3 (v0 * 7681 + 4)) = uint32 v0" "T (drop_bit 3 (v1 * 7681 + 4)) = uint32 v1"
    "T (drop_bit 3 (v2 * 7681 + 4)) = uint32 v2" "T (drop_bit 3 (v3 * 7681 + 4)) = uint32 v3"
    "T (drop_bit 3 (v4 * 7681 + 4)) = uint32 v4" "T (drop_bit 3 (v5 * 7681 + 4)) = uint32 v5"
    "T (drop_bit 3 (v6 * 7681 + 4)) = uint32 v6" "T (drop_bit 3 (v7 * 7681 + 4)) = uint32 v7"
    unfolding T_def by (rule compress_coeff3, rule tb)+
  show ?thesis
    unfolding ex pj unfolding Tj list.inject unfolding v_defs and_4_eq and_6_eq b0_def[symmetric] b1_def[symmetric] b2_def[symmetric]
    by (simp add: u8_eq_bits bit_simps and_numeral_masks u8_high_bits del: One_nat_def) simp
qed

lemma polyVec_compress_decompress_group:
  assumes d: "\<And>k. k < 8 \<Longrightarrow> vec ! (8 * j + k) = polyVec_decompress_group a off j ! k"
  shows "polyVec_compress_group vec j = map (\<lambda>k. a ! (off + 11 * j + k)) [0..<11]"
proof -
  define b0 where "b0 = a ! (off + 11 * j + 0)"
  define b1 where "b1 = a ! (off + 11 * j + 1)"
  define b2 where "b2 = a ! (off + 11 * j + 2)"
  define b3 where "b3 = a ! (off + 11 * j + 3)"
  define b4 where "b4 = a ! (off + 11 * j + 4)"
  define b5 where "b5 = a ! (off + 11 * j + 5)"
  define b6 where "b6 = a ! (off + 11 * j + 6)"
  define b7 where "b7 = a ! (off + 11 * j + 7)"
  define b8 where "b8 = a ! (off + 11 * j + 8)"
  define b9 where "b9 = a ! (off + 11 * j + 9)"
  define b10 where "b10 = a ! (off + 11 * j + 10)"
  note b_defs = b0_def b1_def b2_def b3_def b4_def b5_def b6_def b7_def b8_def b9_def b10_def
  define v0 where "v0 = uint32 b0 OR push_bit 8 (uint32 b1 AND 0x07)"
  define v1 where "v1 = drop_bit 3 (uint32 b1) OR push_bit 5 (uint32 b2 AND 0x3f)"
  define v2 where "v2 = drop_bit 6 (uint32 b2) OR push_bit 2 (uint32 b3 AND 0xff) OR push_bit 10 (uint32 b4 AND 0x01)"
  define v3 where "v3 = drop_bit 1 (uint32 b4) OR push_bit 7 (uint32 b5 AND 0x0f)"
  define v4 where "v4 = drop_bit 4 (uint32 b5) OR push_bit 4 (uint32 b6 AND 0x7f)"
  define v5 where "v5 = drop_bit 7 (uint32 b6) OR push_bit 1 (uint32 b7 AND 0xff) OR push_bit 9 (uint32 b8 AND 0x03)"
  define v6 where "v6 = drop_bit 2 (uint32 b8) OR push_bit 6 (uint32 b9 AND 0x1f)"
  define v7 where "v7 = drop_bit 5 (uint32 b9) OR push_bit 3 (uint32 b10 AND 0xff)"
  note v_defs = v0_def v1_def v2_def v3_def v4_def v5_def v6_def v7_def
  define T :: "u16 \<Rightarrow> u16"
    where "T c = uint16 (((push_bit 11 (uint32 (freeze c)) + 3840) div 7681) AND 0x7ff)" for c
  have tb: "take_bit 11 v0 = v0" "take_bit 11 v1 = v1" "take_bit 11 v2 = v2" "take_bit 11 v3 = v3" "take_bit 11 v4 = v4" "take_bit 11 v5 = v5" "take_bit 11 v6 = v6" "take_bit 11 v7 = v7"
    unfolding v_defs
    by (simp_all add: u32_eq_bits bit_simps and_numeral_masks u8_high_bits del: One_nat_def)
  have ex: "polyVec_compress_group vec j =
      [ byte (T (vec ! (8 * j + 0)) AND 0xff),
        byte (drop_bit 8 (T (vec ! (8 * j + 0))) OR push_bit 3 (T (vec ! (8 * j + 1)) AND 0x1f)),
        byte (drop_bit 5 (T (vec ! (8 * j + 1))) OR push_bit 6 (T (vec ! (8 * j + 2)) AND 0x03)),
        byte (drop_bit 2 (T (vec ! (8 * j + 2))) AND 0xff),
        byte (drop_bit 10 (T (vec ! (8 * j + 2))) OR push_bit 1 (T (vec ! (8 * j + 3)) AND 0x7f)),
        byte (drop_bit 7 (T (vec ! (8 * j + 3))) OR push_bit 4 (T (vec ! (8 * j + 4)) AND 0x0f)),
        byte (drop_bit 4 (T (vec ! (8 * j + 4))) OR push_bit 7 (T (vec ! (8 * j + 5)) AND 0x01)),
        byte (drop_bit 1 (T (vec ! (8 * j + 5))) AND 0xff),
        byte (drop_bit 9 (T (vec ! (8 * j + 5))) OR push_bit 2 (T (vec ! (8 * j + 6)) AND 0x3f)),
        byte (drop_bit 6 (T (vec ! (8 * j + 6))) OR push_bit 5 (T (vec ! (8 * j + 7)) AND 0x07)),
        byte (drop_bit 3 (T (vec ! (8 * j + 7)))) ]"
    by (simp add: polyVec_compress_group_def Let_def upt_0_8 T_def)
  have pj:
    "vec ! (8 * j + 0) = uint16 (drop_bit 11 (v0 * 7681 + 1024))"
    "vec ! (8 * j + 1) = uint16 (drop_bit 11 (v1 * 7681 + 1024))"
    "vec ! (8 * j + 2) = uint16 (drop_bit 11 (v2 * 7681 + 1024))"
    "vec ! (8 * j + 3) = uint16 (drop_bit 11 (v3 * 7681 + 1024))"
    "vec ! (8 * j + 4) = uint16 (drop_bit 11 (v4 * 7681 + 1024))"
    "vec ! (8 * j + 5) = uint16 (drop_bit 11 (v5 * 7681 + 1024))"
    "vec ! (8 * j + 6) = uint16 (drop_bit 11 (v6 * 7681 + 1024))"
    "vec ! (8 * j + 7) = uint16 (drop_bit 11 (v7 * 7681 + 1024))"
    using d[of 0] d[of 1] d[of 2] d[of 3] d[of 4] d[of 5] d[of 6] d[of 7]
    unfolding polyVec_decompress_group_def v_defs b_defs by simp_all
  have Tj:
    "T (uint16 (drop_bit 11 (v0 * 7681 + 1024))) = uint16 v0"
    "T (uint16 (drop_bit 11 (v1 * 7681 + 1024))) = uint16 v1"
    "T (uint16 (drop_bit 11 (v2 * 7681 + 1024))) = uint16 v2"
    "T (uint16 (drop_bit 11 (v3 * 7681 + 1024))) = uint16 v3"
    "T (uint16 (drop_bit 11 (v4 * 7681 + 1024))) = uint16 v4"
    "T (uint16 (drop_bit 11 (v5 * 7681 + 1024))) = uint16 v5"
    "T (uint16 (drop_bit 11 (v6 * 7681 + 1024))) = uint16 v6"
    "T (uint16 (drop_bit 11 (v7 * 7681 + 1024))) = uint16 v7"
    unfolding T_def by (rule compress_coeff11, rule tb)+
  have r: "map (\<lambda>k. a ! (off + 11 * j + k)) [0..<11] = [b0, b1, b2, b3, b4, b5, b6, b7, b8, b9, b10]"
    unfolding b_defs upt_0_11 by simp
  show ?thesis
    unfolding r ex pj unfolding Tj list.inject unfolding v_defs
    by (simp add: u8_eq_bits bit_simps and_numeral_masks u8_high_bits del: One_nat_def) simp
qed

lemma length_poly_decompress_group: "length (poly_decompress_group a off) = 8"
  by (simp add: poly_decompress_group_def)

lemma length_poly_decompress: "length (poly_decompress a) = 256"
  unfolding poly_decompress_def
  using length_concat_map_upt[of 32 "\<lambda>g. poly_decompress_group a (3 * g)" 8]
  by (simp add: length_poly_decompress_group)

lemma poly_compress_decompress:
  assumes "length c = 96"
  shows "poly_compress (poly_decompress c) = c"
proof -
  have nth: "poly_decompress c ! (8 * g + j) = poly_decompress_group c (3 * g) ! j"
    if "g < 32" "j < 8" for g j
    unfolding poly_decompress_def
    using concat_map_upt_nth[of 32 "\<lambda>g. poly_decompress_group c (3 * g)" 8 g j] that
    by (simp add: length_poly_decompress_group)
  have grp: "poly_compress_group (poly_decompress c) (8 * g) = map (\<lambda>k. c ! (3 * g + k)) [0..<3]"
    if "g < 32" for g
  proof -
    have "poly_compress_group (poly_decompress c) (8 * g) = [c ! (3 * g), c ! (3 * g + 1), c ! (3 * g + 2)]"
      by (rule poly_compress_decompress_group) (rule nth[OF that])
    also have "\<dots> = map (\<lambda>k. c ! (3 * g + k)) [0..<3]"
      unfolding upt_0_3 by simp
    finally show ?thesis .
  qed
  have m: "map (\<lambda>g. poly_compress_group (poly_decompress c) (8 * g)) [0..<32]
      = map (\<lambda>g. map (\<lambda>k. c ! (3 * g + k)) [0..<3]) [0..<32]"
    by (rule map_cong[OF refl]) (simp add: grp)
  have e: "kyberN div 8 = 32" by simp
  have "poly_compress (poly_decompress c)
      = concat (map (\<lambda>g. map (\<lambda>k. c ! (3 * g + k)) [0..<3]) [0..<32])"
    unfolding poly_compress_def e m ..
  also have "\<dots> = map (\<lambda>k. c ! k) [0..<3 * 32]"
    by (rule concat_map_map_upt)
  also have "\<dots> = c"
    using assms map_nth[of c] by simp
  finally show ?thesis .
qed

lemma length_polyVec_decompress_group: "length (polyVec_decompress_group a off j) = 8"
  by (simp add: polyVec_decompress_group_def)

lemma length_polyVec_decompress_poly: "length (polyVec_decompress_poly a off) = 256"
  unfolding polyVec_decompress_poly_def
  using length_concat_map_upt[of 32 "polyVec_decompress_group a off" 8]
  by (simp add: length_polyVec_decompress_group)

lemma polyVec_compress_decompress_poly:
  "polyVec_compress_poly (polyVec_decompress_poly c off) = map (\<lambda>n. c ! (off + n)) [0..<352]"
proof -
  have nth: "polyVec_decompress_poly c off ! (8 * j + k) = polyVec_decompress_group c off j ! k"
    if "j < 32" "k < 8" for j k
    unfolding polyVec_decompress_poly_def
    using concat_map_upt_nth[of 32 "polyVec_decompress_group c off" 8 j k] that
    by (simp add: length_polyVec_decompress_group)
  have grp: "polyVec_compress_group (polyVec_decompress_poly c off) j
      = map (\<lambda>k. c ! (off + (11 * j + k))) [0..<11]"
    if "j < 32" for j
    using polyVec_compress_decompress_group[of "polyVec_decompress_poly c off" j c off] nth[OF that]
    by (simp add: add.assoc)
  have m: "map (polyVec_compress_group (polyVec_decompress_poly c off)) [0..<32]
      = map (\<lambda>j. map (\<lambda>k. c ! (off + (11 * j + k))) [0..<11]) [0..<32]"
    by (rule map_cong[OF refl]) (simp add: grp)
  have e: "kyberN div 8 = 32" by simp
  have "polyVec_compress_poly (polyVec_decompress_poly c off)
      = concat (map (\<lambda>j. map (\<lambda>k. c ! (off + (11 * j + k))) [0..<11]) [0..<32])"
    unfolding polyVec_compress_poly_def e m ..
  also have "\<dots> = map (\<lambda>n. c ! (off + n)) [0..<11 * 32]"
    by (rule concat_map_map_upt)
  finally show ?thesis by simp
qed

lemma polyVec_compress_decompress:
  assumes "length c = k * 352"
  shows "polyVec_compress (polyVec_decompress k c) = c"
proof -
  have "polyVec_compress (polyVec_decompress k c)
      = concat (map (\<lambda>i. polyVec_compress_poly (polyVec_decompress_poly c (i * 352))) [0..<k])"
    unfolding polyVec_compress_def polyVec_decompress_def by (simp add: comp_def)
  also have "\<dots> = concat (map (\<lambda>i. map (\<lambda>n. c ! (352 * i + n)) [0..<352]) [0..<k])"
    by (simp add: polyVec_compress_decompress_poly mult.commute)
  also have "\<dots> = map (\<lambda>n. c ! n) [0..<352 * k]"
    by (rule concat_map_map_upt)
  also have "\<dots> = c"
    using assms map_nth[of c] by (simp add: mult.commute)
  finally show ?thesis .
qed

section \<open>Facts about the parameter sets and the key encodings\<close>

lemma Kyber512_fields:
  "Kyber512 = \<lparr> ps_name = ''Kyber-512'', ps_k = 2, ps_eta = 5, polyVecSize = 832,
      polyVecCompressedSize = 704, indcpaMsgSize = 32, indcpaPublicKeySize = 736,
      indcpaSecretKeySize = 832, indcpaSize = 800, publicKeySize = 736, secretKeySize = 1632,
      cipherTextSize = 800 \<rparr>"
  by (simp add: Kyber512_def newParameterSet_def)

lemma Kyber768_fields:
  "Kyber768 = \<lparr> ps_name = ''Kyber-768'', ps_k = 3, ps_eta = 4, polyVecSize = 1248,
      polyVecCompressedSize = 1056, indcpaMsgSize = 32, indcpaPublicKeySize = 1088,
      indcpaSecretKeySize = 1248, indcpaSize = 1152, publicKeySize = 1088, secretKeySize = 2400,
      cipherTextSize = 1152 \<rparr>"
  by (simp add: Kyber768_def newParameterSet_def)

lemma Kyber1024_fields:
  "Kyber1024 = \<lparr> ps_name = ''Kyber-1024'', ps_k = 4, ps_eta = 3, polyVecSize = 1664,
      polyVecCompressedSize = 1408, indcpaMsgSize = 32, indcpaPublicKeySize = 1440,
      indcpaSecretKeySize = 1664, indcpaSize = 1504, publicKeySize = 1440, secretKeySize = 3168,
      cipherTextSize = 1504 \<rparr>"
  by (simp add: Kyber1024_def newParameterSet_def)

text \<open>What the rest of the package relies on in a parameter set.\<close>

lemma allParams_sizes:
  assumes "P \<in> set allParams"
  shows "ps_k P \<in> {2, 3, 4}" and "ps_eta P \<in> {3, 4, 5}"
    and "indcpaPublicKeySize P = ps_k P * 352 + 32"
    and "indcpaSecretKeySize P = ps_k P * 416"
    and "publicKeySize P = indcpaPublicKeySize P"
    and "secretKeySize P = indcpaSecretKeySize P + indcpaPublicKeySize P + 64"
    and "cipherTextSize P = ps_k P * 352 + 96"
  using assms
  by (auto simp add: allParams_def Kyber512_fields Kyber768_fields Kyber1024_fields)

lemma length_go_copy [simp]: "length (go_copy dst src) = length dst"
  by (simp add: go_copy_def)


lemma slice_append_1: "go_slice (a @ b) 0 (length a) = a"
  by (simp add: go_slice_def)

lemma slice_append_2: "go_slice (a @ b @ c) (length a) (length a + length b) = b"
  by (simp add: go_slice_def)

lemma PrivateKeyFromBytes_wrong_length:
  "length b \<noteq> secretKeySize P \<Longrightarrow> PrivateKeyFromBytes H P b = Inl (Returned ErrInvalidKeySize)"
  by (simp add: PrivateKeyFromBytes_def)

lemma PrivateKeyFromBytes_bad_hash:
  assumes P: "P \<in> set allParams"
    and len: "length b = secretKeySize P"
    and h: "go_slice b (indcpaSecretKeySize P + publicKeySize P) (indcpaSecretKeySize P + publicKeySize P + 32)
        \<noteq> Sum256 H (go_slice b (indcpaSecretKeySize P) (indcpaSecretKeySize P + publicKeySize P))"
  shows "PrivateKeyFromBytes H P b = Inl (Returned ErrInvalidPrivateKey)"
proof -
  note s = allParams_sizes[OF P]
  have l: "length (go_slice b (indcpaSecretKeySize P) (indcpaSecretKeySize P + publicKeySize P))
      = indcpaPublicKeySize P"
    using len s by (simp add: go_slice_def)
  show ?thesis
    unfolding PrivateKeyFromBytes_def Let_def indcpaPublicKey_fromBytes_def
    using len l h by simp
qed

section \<open>Key generation and the key encodings\<close>

lemma sequence_sum_Inr: "sequence_sum (map (\<lambda>i. Inr (f i)) xs) = Inr (map f xs)"
  by (induction xs) simp_all

lemma cbdRef_returns:
  "eta \<in> {3, 4, 5} \<Longrightarrow> \<exists>p. cbdRef buf eta = Inr p"
  by (auto simp add: cbdRef_def)

lemma poly_getNoise_returns:
  assumes "eta \<in> {3, 4, 5}"
  shows "poly_getNoise H seed nonce eta = Inr (projr (poly_getNoise H seed nonce eta))"
  using cbdRef_returns[OF assms] unfolding poly_getNoise_def Let_def poly_cbd_def
  by (metis sum.sel(2))

lemma noiseVec_returns:
  assumes "eta \<in> {3, 4, 5}"
  shows "noiseVec H seed nonce eta k
     = Inr (map (\<lambda>i. projr (poly_getNoise H seed (of_nat (nonce + i)) eta)) [0..<k])"
proof -
  have "map (\<lambda>i. poly_getNoise H seed (of_nat (nonce + i)) eta) [0..<k]
      = map (\<lambda>i. Inr (projr (poly_getNoise H seed (of_nat (nonce + i)) eta))) [0..<k]"
    using poly_getNoise_returns[OF assms] by (intro map_cong[OF refl]) simp
  then show ?thesis unfolding noiseVec_def by (simp only: sequence_sum_Inr)
qed

lemma indcpaKeyPair_shape:
  assumes "indcpaKeyPair H P rng = Some (Inr ((pk, sk), rng'))"
  shows "length (pk_packed pk) = indcpaPublicKeySize P"
    and "pk_h pk = Sum256 H (pk_packed pk)"
    and "length (sk_packed sk) = indcpaSecretKeySize P"
    and "length rng' + 32 = length rng" and "rng' = drop 32 rng"
  using assms unfolding indcpaKeyPair_def Let_def ReadFull_def
  by (auto split: sum.splits option.splits prod.splits if_splits)

lemma GenerateKeyPair_shape:
  assumes "GenerateKeyPair H P rng = Some (Inr ((pk, sk), rng'))"
  shows "priv_PublicKey sk = pk" and "pub_p pk = P"
    and "length (pk_packed (pub_pk pk)) = indcpaPublicKeySize P"
    and "pk_h (pub_pk pk) = Sum256 H (pk_packed (pub_pk pk))"
    and "length (sk_packed (priv_sk sk)) = indcpaSecretKeySize P"
    and "length (priv_z sk) = 32"
  using assms unfolding GenerateKeyPair_def Let_def ReadFull_def
  by (auto split: sum.splits option.splits prod.splits if_splits dest: indcpaKeyPair_shape)


lemma PrivateKey_roundtrip:
  assumes P: "P \<in> set allParams"
    and pp: "pub_p (priv_PublicKey sk) = P"
    and lpk: "length (pk_packed (pub_pk (priv_PublicKey sk))) = indcpaPublicKeySize P"
    and h: "pk_h (pub_pk (priv_PublicKey sk)) = Sum256 H (pk_packed (pub_pk (priv_PublicKey sk)))"
    and lh: "length (Sum256 H (pk_packed (pub_pk (priv_PublicKey sk)))) = 32"
    and lsk: "length (sk_packed (priv_sk sk)) = indcpaSecretKeySize P"
    and lz: "length (priv_z sk) = 32"
  shows "PrivateKeyFromBytes H P (PrivateKey_Bytes sk) = Inr sk"
    and "length (PrivateKey_Bytes sk) = secretKeySize P"
proof -
  note s = allParams_sizes[OF P]
  define a where "a = sk_packed (priv_sk sk)"
  define b where "b = pk_packed (pub_pk (priv_PublicKey sk))"
  define c where "c = pk_h (pub_pk (priv_PublicKey sk))"
  define d where "d = priv_z sk"
  have bytes: "PrivateKey_Bytes sk = a @ b @ c @ d"
    unfolding PrivateKey_Bytes_def a_def b_def c_def d_def by simp
  have la: "length a = indcpaSecretKeySize P" and lb: "length b = indcpaPublicKeySize P"
    and lc: "length c = 32" and ld: "length d = 32" and hc: "c = Sum256 H b"
    using lsk lpk lh lz h unfolding a_def b_def c_def d_def by simp_all
  show len: "length (PrivateKey_Bytes sk) = secretKeySize P"
    unfolding bytes using la lb lc ld s by simp
  have 1: "go_slice (a @ b @ c @ d) (indcpaSecretKeySize P) (indcpaSecretKeySize P + publicKeySize P) = b"
    using la lb s by (simp add: go_slice_def)
  have 2: "go_slice (a @ b @ c @ d) (indcpaSecretKeySize P + publicKeySize P)
             (indcpaSecretKeySize P + publicKeySize P + 32) = c"
    using la lb lc s by (simp add: go_slice_def)
  have 3: "go_copy (replicate 32 0) (drop (indcpaSecretKeySize P + publicKeySize P + 32) (a @ b @ c @ d)) = d"
    using la lb lc ld s by (simp add: go_copy_def)
  have 4: "take (indcpaSecretKeySize P) (a @ b @ c @ d) = a"
    using la by simp
  have "PrivateKeyFromBytes H P (a @ b @ c @ d)
      = Inr \<lparr> priv_PublicKey = \<lparr> pub_pk = \<lparr> pk_packed = b, pk_h = Sum256 H b \<rparr>, pub_p = P \<rparr>,
              priv_sk = \<lparr> sk_packed = a \<rparr>, priv_z = d \<rparr>"
    unfolding PrivateKeyFromBytes_def Let_def 1 2 3 4 indcpaPublicKey_fromBytes_def
      indcpaSecretKey_fromBytes_def
    using len[unfolded bytes] la lb hc by simp
  also have "\<dots> = Inr sk"
    using pp hc unfolding a_def b_def c_def d_def by simp
  finally show "PrivateKeyFromBytes H P (PrivateKey_Bytes sk) = Inr sk"
    unfolding bytes .
qed

lemma PublicKey_roundtrip:
  assumes "pub_p pk = P"
    and "length (pk_packed (pub_pk pk)) = indcpaPublicKeySize P"
    and "pk_h (pub_pk pk) = Sum256 H (pk_packed (pub_pk pk))"
  shows "PublicKeyFromBytes H P (PublicKey_Bytes pk) = Inr pk"
  using assms
  by (simp add: PublicKeyFromBytes_def PublicKey_Bytes_def indcpaPublicKey_toBytes_def
      indcpaPublicKey_fromBytes_def)


lemma those_map_Some: "those (map (\<lambda>i. Some (f i)) xs) = Some (map f xs)"
  by (induction xs) simp_all

lemma those_replicate_Some: "those (replicate k (Some x)) = Some (replicate k x)"
  by (induction k) simp_all

lemma genMatrix_parse_zero:
  assumes "n = 256 - ctr" and "ctr \<le> 256" and "pos + 2 \<le> maxPos" and "maxPos \<le> 672"
    and "even pos" and "even maxPos"
  shows "genMatrix_parse (\<lambda>i. 0) ctr pos maxPos (replicate 672 0) off (replicate 256 0)
     = Some (replicate 256 0)"
  using assms
proof (induction n arbitrary: ctr pos maxPos off)
  case 0
  then show ?case by (subst genMatrix_parse.simps) simp
next
  case (Suc n)
  have lt: "ctr < 256" using Suc.prems(1) by simp
  have upd: "(replicate 256 (0::u16))[ctr := 0] = replicate 256 0"
    by (simp add: list_update_same_conv lt)
  have buf: "map (\<lambda>i. 0::u8) [0..<168] @ replicate 504 0 = replicate 672 0"
    by (simp add: map_replicate_const replicate_add[symmetric])
  have p0: "replicate 672 (0::u8) ! pos = 0" "replicate 672 (0::u8) ! Suc pos = 0"
    using Suc.prems(3,4) by simp_all
  show ?case
  proof (cases "pos + 2 = maxPos")
    case True
    have "genMatrix_parse (\<lambda>i. 0) (ctr + 1) 0 168 (replicate 672 0) (off + 168) (replicate 256 0)
        = Some (replicate 256 0)"
      using Suc.prems lt by (intro Suc.IH) simp_all
    then show ?thesis
      using True lt by (subst genMatrix_parse.simps) (simp add: p0 upd buf Let_def)
  next
    case False
    have "pos + 4 \<le> maxPos"
      using False Suc.prems(3,5,6) by presburger
    then have "genMatrix_parse (\<lambda>i. 0) (ctr + 1) (pos + 2) maxPos (replicate 672 0) off (replicate 256 0)
        = Some (replicate 256 0)"
      using Suc.prems lt by (intro Suc.IH) simp_all
    then show ?thesis
      using False lt by (subst genMatrix_parse.simps) (simp add: p0 upd Let_def)
  qed
qed

lemma genMatrix_entry_zero:
  "genMatrix_entry zero_sha3 seed x y = Some (replicate 256 0)"
proof -
  have "map (\<lambda>i. 0::u8) [0..<672] = replicate 672 0"
    by (simp add: map_replicate_const)
  then show ?thesis
    unfolding genMatrix_entry_def Let_def zero_sha3_def
    using genMatrix_parse_zero[of 256 0 0 672 672] by simp
qed

lemma genMatrix_zero:
  "genMatrix zero_sha3 k seed t = Some (replicate k (replicate k (replicate 256 0)))"
  unfolding genMatrix_def genMatrix_entry_zero
  by (simp add: those_replicate_Some map_replicate_const)

lemma GenerateKeyPair_returns:
  assumes P: "P \<in> set allParams" and len: "64 \<le> length rng"
    and gm: "genMatrix H (ps_k P) (take 32 (Sum512 H (take 32 rng))) False \<noteq> None"
  shows "\<exists>pk sk. GenerateKeyPair H P rng = Some (Inr ((pk, sk), drop 64 rng))"
proof -
  note s = allParams_sizes[OF P]
  obtain a where a: "genMatrix H (ps_k P) (take 32 (Sum512 H (take 32 rng))) False = Some a"
    using gm by auto
  have r1: "ReadFull rng 32 = Inr (take 32 rng, drop 32 rng)"
    using len by (simp add: ReadFull_def)
  have r2: "ReadFull (drop 32 rng) 32 = Inr (take 32 (drop 32 rng), drop 64 rng)"
    using len by (simp add: ReadFull_def)
  obtain pk sk where "indcpaKeyPair H P rng = Some (Inr ((pk, sk), drop 32 rng))"
    unfolding indcpaKeyPair_def Let_def r1
    by (simp add: a noiseVec_returns[OF s(2)])
  then show ?thesis
    unfolding GenerateKeyPair_def Let_def by (simp add: r2)
qed

section \<open>Decapsulation\<close>







lemma GenerateKeyPair_valid:
  assumes "sha3_sizes H" and "GenerateKeyPair H P rng = Some (Inr ((pk, sk), rng'))"
  shows "valid_PrivateKey P sk"
  using GenerateKeyPair_shape[OF assms(2)] assms(1)
  by (simp add: valid_PrivateKey_def sha3_sizes_def)

lemma PrivateKeyFromBytes_valid:
  assumes "sha3_sizes H" and "PrivateKeyFromBytes H P b = Inr sk"
  shows "valid_PrivateKey P sk"
proof -
  have l: "length (Sum256 H x) = 32" for x
    using assms(1) by (simp add: sha3_sizes_def)
  show ?thesis
    using assms(2) l[of "go_slice b (indcpaSecretKeySize P) (indcpaSecretKeySize P + publicKeySize P)"]
    unfolding PrivateKeyFromBytes_def Let_def indcpaPublicKey_fromBytes_def
      indcpaSecretKey_fromBytes_def valid_PrivateKey_def
    by (auto split: if_splits)
qed

section \<open>The matrix sampler\<close>












section \<open>The sponge instances\<close>






section \<open>The loops of the transforms, level by level\<close>

lemma length_butterfly_upd [simp]: "length (butterfly_upd d F G j a) = length a"
  by (simp add: butterfly_upd_def)

lemma length_fold_butterfly_upd [simp]: "length (fold (butterfly_upd d F G) js a) = length a"
  by (induction js arbitrary: a) simp_all

lemma fold_butterfly_upd_nth:
  assumes "distinct js" and "0 < d"
    and "\<forall>j\<in>set js. j + d \<notin> set js \<and> j + d < length a"
  shows "fold (butterfly_upd d F G) js a ! i
     = (if i \<in> set js then F i (a ! i) (a ! (i + d))
        else if d \<le> i \<and> i - d \<in> set js then G (i - d) (a ! (i - d)) (a ! i)
        else a ! i)"
  using assms
proof (induction js arbitrary: a)
  case Nil
  then show ?case by simp
next
  case (Cons j js)
  define a' where "a' = butterfly_upd d F G j a"
  have la: "length a' = length a" by (simp add: a'_def)
  have jl: "j + d < length a" "j < length a" using Cons.prems by auto
  have jn: "j \<notin> set js" "j + d \<notin> set js" using Cons.prems by auto
  have ih: "fold (butterfly_upd d F G) js a' ! i
     = (if i \<in> set js then F i (a' ! i) (a' ! (i + d))
        else if d \<le> i \<and> i - d \<in> set js then G (i - d) (a' ! (i - d)) (a' ! i)
        else a' ! i)"
    by (rule Cons.IH) (use Cons.prems la in auto)
  have same: "a' ! m = a ! m" if "m \<noteq> j" "m \<noteq> j + d" for m
    using that by (simp add: a'_def butterfly_upd_def)
  have aj: "a' ! j = F j (a ! j) (a ! (j + d))"
    using jl Cons.prems(2) by (simp add: a'_def butterfly_upd_def)
  have ajd: "a' ! (j + d) = G j (a ! j) (a ! (j + d))"
    using jl by (simp add: a'_def butterfly_upd_def)
  consider (a) "i = j" | (b) "i = j + d" | (c) "i \<in> set js" | (e) "d \<le> i" "i - d \<in> set js" "i \<notin> set js" "i \<noteq> j"
    | (f) "i \<noteq> j" "i \<noteq> j + d" "i \<notin> set js" "\<not> (d \<le> i \<and> i - d \<in> set js)"
    by blast
  then show ?case
  proof cases
    case a
    have "\<not> (d \<le> j \<and> j - d \<in> set js)"
      using Cons.prems(3) by (metis le_add_diff_inverse2 list.set_intros(1,2))
    then show ?thesis using a jn ih aj by (auto simp add: a'_def[symmetric])
  next
    case b
    have "\<not> (d \<le> j + d \<and> j + d - d \<in> set js)" using jn by simp
    then show ?thesis using b jn ih ajd Cons.prems(2) by (auto simp add: a'_def[symmetric])
  next
    case c
    have "i \<noteq> j" "i \<noteq> j + d" using c jn by auto
    moreover have "i + d \<noteq> j" "i + d \<noteq> j + d"
      using c Cons.prems(3) \<open>i \<noteq> j\<close> by auto
    ultimately show ?thesis using c ih by (auto simp add: a'_def[symmetric] same)
  next
    case e
    have 1: "i \<noteq> j + d" using e jn by auto
    have 2: "i - d \<noteq> j" using e jn by auto
    have 3: "i - d \<noteq> j + d"
      using e Cons.prems(3) by (metis le_add_diff_inverse2 list.set_intros(1,2))
    show ?thesis using e ih 1 2 3 by (auto simp add: a'_def[symmetric] same)
  next
    case f
    have "\<not> (d \<le> i \<and> i - d = j)" using f by auto
    then show ?thesis using f ih by (auto simp add: a'_def[symmetric] same)
  qed
qed

declare ntt_starts.simps [simp del] invntt_js.simps [simp del]

lemma ntt_butterfly_upd:
  "ntt_butterfly level zeta j p
     = butterfly_upd (2 ^ level) (\<lambda>_. ntt_lo level zeta) (\<lambda>_. ntt_hi zeta) j p"
proof -
  have ne: "j + 2 ^ level \<noteq> j" by simp
  show ?thesis
    unfolding ntt_butterfly_def butterfly_upd_def ntt_lo_def ntt_hi_def Let_def
    by (simp add: list_update_swap[OF ne] nth_list_update_neq[OF ne])
qed

lemma invntt_butterfly_upd:
  "invntt_butterfly level w j a
     = butterfly_upd (2 ^ level) (\<lambda>_. invntt_lo level) (\<lambda>_. invntt_hi w) j a"
proof -
  have ne: "j \<noteq> j + 2 ^ level" by simp
  show ?thesis
    unfolding invntt_butterfly_def butterfly_upd_def invntt_lo_def invntt_hi_def Let_def
    by (simp add: nth_list_update_neq[OF ne])
qed

lemma even_div_add:
  assumes "0 < (d::nat)" and "even (j div d)"
  shows "odd ((j + d) div d)"
proof -
  have "(j + d) div d = j div d + 1" using assms(1) by (intro div_add_self2) simp
  then show ?thesis using assms(2) by simp
qed

lemma odd_div_sub:
  assumes "0 < (d::nat)" and "odd (i div d)"
  shows "d \<le> i" and "even ((i - d) div d)" and "(i - d) div (2 * d) = i div (2 * d)"
proof -
  show le: "d \<le> i"
    using assms by (metis div_less even_zero not_le)
  have s: "i div d = Suc ((i - d) div d)"
    using le_div_geq[OF assms(1) le] .
  then show "even ((i - d) div d)" using assms(2) by simp
  have "(i - d) div d div 2 = i div d div 2"
    using s assms(2) by (metis \<open>even ((i - d) div d)\<close> even_Suc_div_two)
  then show "(i - d) div (2 * d) = i div (2 * d)"
    by (simp add: div_mult2_eq mult.commute)
qed

lemma even_div_bound:
  assumes "0 < (d::nat)" and "even (j div d)" and "j < 2 * d * nb"
  shows "j + d < 2 * d * nb"
proof -
  have "j div d < 2 * nb"
    using assms(1,3) by (simp add: div_less_iff_less_mult mult.commute mult.left_commute)
  moreover obtain k where k: "j div d = 2 * k" using assms(2) by (elim evenE)
  moreover have "2 * k < 2 * nb \<Longrightarrow> Suc (2 * k) < 2 * nb" by presburger
  ultimately have "Suc (j div d) < 2 * nb" by simp
  moreover have "(j + d) div d = j div d + 1" using assms(1) by (intro div_add_self2) simp
  ultimately have "(j + d) div d < 2 * nb" by simp
  then show ?thesis
    using assms(1) by (simp add: div_less_iff_less_mult mult.commute mult.left_commute)
qed

lemma block_div:
  assumes "0 < (d::nat)" and "2 * d * b \<le> j" and "j < 2 * d * b + d"
  shows "j div (2 * d) = b" and "j div d = 2 * b"
proof -
  obtain r where r: "j = 2 * d * b + r" "r < d"
    using assms(2,3) by (metis add_diff_inverse_nat less_diff_conv2 linorder_not_less nat_add_left_cancel_less)
  show "j div (2 * d) = b" unfolding r(1) using r(2) assms(1) by simp
  have "j = r + (2 * b) * d" unfolding r(1) by simp
  then show "j div d = 2 * b" using r(2) assms(1) by (metis div_mult_self1 div_less add.commute add_0 less_numeral_extra(3))
qed

lemma block_div_hi:
  assumes "0 < (d::nat)" and "2 * d * b + d \<le> j" and "j < 2 * d * b + 2 * d"
  shows "j div d = 2 * b + 1"
proof -
  obtain r where r: "j = 2 * d * b + d + r" "r < d"
    using assms(2,3) by (metis add_diff_inverse_nat less_diff_conv2 linorder_not_less nat_add_left_cancel_less mult_2 add.assoc)
  have "j = r + (2 * b + 1) * d" unfolding r(1) by (simp add: algebra_simps)
  then show ?thesis using r(2) assms(1) by (metis div_mult_self1 div_less add.commute add_0 less_numeral_extra(3))
qed

lemma filter_even_block:
  assumes "0 < (d::nat)" and "b < nb"
  shows "filter (\<lambda>j. even (j div d)) [2 * d * b..<2 * d * nb]
       = [2 * d * b..<2 * d * b + d] @ filter (\<lambda>j. even (j div d)) [2 * d * Suc b..<2 * d * nb]"
proof -
  have le: "2 * d * Suc b \<le> 2 * d * nb" using assms(2) by (intro mult_le_mono2) simp
  have s1: "[2 * d * b..<2 * d * nb] = [2 * d * b..<2 * d * b + d] @ [2 * d * b + d..<2 * d * nb]"
    using upt_add_eq_append[of "2 * d * b" "2 * d * b + d" "2 * d * nb - (2 * d * b + d)"] le by simp
  have s2: "[2 * d * b + d..<2 * d * nb] = [2 * d * b + d..<2 * d * Suc b] @ [2 * d * Suc b..<2 * d * nb]"
    using upt_add_eq_append[of "2 * d * b + d" "2 * d * Suc b" "2 * d * nb - 2 * d * Suc b"] le by simp
  have sp: "[2 * d * b..<2 * d * nb]
      = [2 * d * b..<2 * d * b + d] @ [2 * d * b + d..<2 * d * Suc b] @ [2 * d * Suc b..<2 * d * nb]"
    using s1 s2 by simp
  have 1: "filter (\<lambda>j. even (j div d)) [2 * d * b..<2 * d * b + d] = [2 * d * b..<2 * d * b + d]"
    using block_div(2)[OF assms(1), of b] by (auto simp add: filter_id_conv)
  have 2: "filter (\<lambda>j. even (j div d)) [2 * d * b + d..<2 * d * Suc b] = []"
    using block_div_hi[OF assms(1), of b] by (auto simp add: filter_empty_conv)
  show ?thesis unfolding sp filter_append 1 2 by simp
qed

lemma ntt_starts_fold:
  assumes "m = nb - b" and "b \<le> nb" and "2 * 2 ^ level * nb = 256"
  shows "ntt_starts level (2 * 2 ^ level * b) (K + b) p
     = (K + nb,
        fold (butterfly_upd (2 ^ level)
                (\<lambda>j. ntt_lo level (zetas ! (K + j div (2 * 2 ^ level))))
                (\<lambda>j. ntt_hi (zetas ! (K + j div (2 * 2 ^ level)))))
             (filter (\<lambda>j. even (j div 2 ^ level)) [2 * 2 ^ level * b..<2 * 2 ^ level * nb]) p)"
  using assms
proof (induction m arbitrary: b p)
  case 0
  then have "b = nb" by simp
  then show ?case using "0.prems"(3) by (subst ntt_starts.simps) simp
next
  case (Suc m)
  define d :: nat where "d = 2 ^ level"
  have d: "0 < d" by (simp add: d_def)
  have b: "b < nb" using Suc.prems by simp
  have lt: "2 * d * b < 256"
  proof -
    have "2 * d * b < 2 * d * nb" using b d by simp
    then show ?thesis using Suc.prems(3) by (simp add: d_def)
  qed
  define F where "F = (\<lambda>j. ntt_lo level (zetas ! (K + j div (2 * d))))"
  define G where "G = (\<lambda>j. ntt_hi (zetas ! (K + j div (2 * d))))"
  have inner: "fold (ntt_butterfly level (zetas ! (K + b))) [2 * d * b..<2 * d * b + d] p
        = fold (butterfly_upd d F G) [2 * d * b..<2 * d * b + d] p" for p
  proof (rule fold_cong[OF refl refl])
    fix x assume "x \<in> set [2 * d * b..<2 * d * b + d]"
    then have "x div (2 * d) = b" using block_div(1)[OF d, of b x] by simp
    then show "ntt_butterfly level (zetas ! (K + b)) x = butterfly_upd d F G x"
      by (intro ext) (simp add: ntt_butterfly_upd butterfly_upd_def F_def G_def d_def)
  qed
  have st: "2 * d * b + d + d = 2 * d * Suc b" by simp
  have ih: "ntt_starts level (2 * d * Suc b) (K + Suc b) p'
     = (K + nb, fold (butterfly_upd d F G)
             (filter (\<lambda>j. even (j div d)) [2 * d * Suc b..<2 * d * nb]) p')" for p'
    unfolding d_def F_def G_def
    by (rule Suc.IH) (use Suc.prems b in simp_all)
  have "ntt_starts level (2 * d * b) (K + b) p
      = ntt_starts level (2 * d * Suc b) (K + Suc b)
          (fold (ntt_butterfly level (zetas ! (K + b))) [2 * d * b..<2 * d * b + d] p)"
    using lt by (subst ntt_starts.simps) (simp add: Let_def d_def algebra_simps)
  also have "\<dots> = (K + nb, fold (butterfly_upd d F G)
             (filter (\<lambda>j. even (j div d)) [2 * d * Suc b..<2 * d * nb])
             (fold (butterfly_upd d F G) [2 * d * b..<2 * d * b + d] p))"
    unfolding ih inner ..
  also have "\<dots> = (K + nb, fold (butterfly_upd d F G)
             (filter (\<lambda>j. even (j div d)) [2 * d * b..<2 * d * nb]) p)"
    unfolding filter_even_block[OF d b] by simp
  finally show ?case unfolding d_def F_def G_def .
qed

lemma pow_split: "level \<le> 7 \<Longrightarrow> 2 * 2 ^ level * 2 ^ (7 - level) = (256::nat)"
proof -
  assume "level \<le> 7"
  then have "2 * 2 ^ level * 2 ^ (7 - level) = (2::nat) ^ (1 + level + (7 - level))"
    by (simp only: power_add power_one_right)
  also have "\<dots> = 2 ^ 8" using \<open>level \<le> 7\<close> by simp
  finally show ?thesis by simp
qed

lemma ntt_starts_level:
  assumes "level \<le> 7" and "length p = 256"
  shows "ntt_starts level 0 (2 ^ (7 - level)) p = (2 ^ (7 - level) + 2 ^ (7 - level), ntt_level_map level p)"
proof -
  define d :: nat where "d = 2 ^ level"
  define nb :: nat where "nb = 2 ^ (7 - level)"
  have d: "0 < d" by (simp add: d_def)
  have n: "2 * d * nb = 256" unfolding d_def nb_def by (rule pow_split[OF assms(1)])
  define F where "F = (\<lambda>j. ntt_lo level (zetas ! (nb + j div (2 * d))))"
  define G where "G = (\<lambda>j. ntt_hi (zetas ! (nb + j div (2 * d))))"
  define js where "js = filter (\<lambda>j. even (j div d)) [0..<256]"
  have "ntt_starts level (2 * 2 ^ level * 0) (nb + 0) p
     = (nb + nb, fold (butterfly_upd d F G) (filter (\<lambda>j. even (j div d)) [2 * d * 0..<2 * d * nb]) p)"
    unfolding d_def F_def G_def
    by (rule ntt_starts_fold[OF refl]) (use n in \<open>simp_all add: d_def\<close>)
  then have st: "ntt_starts level 0 nb p = (nb + nb, fold (butterfly_upd d F G) js p)"
    by (simp add: js_def n)
  have sjs: "j \<in> set js \<longleftrightarrow> j < 256 \<and> even (j div d)" for j
    by (auto simp add: js_def)
  have cond: "\<forall>j\<in>set js. j + d \<notin> set js \<and> j + d < length p"
  proof
    fix j assume "j \<in> set js"
    then have j: "j < 2 * d * nb" "even (j div d)" by (simp_all add: sjs n)
    show "j + d \<notin> set js \<and> j + d < length p"
      using even_div_add[OF d j(2)] even_div_bound[OF d j(2) j(1)] by (simp add: sjs assms(2) n)
  qed
  have nth: "fold (butterfly_upd d F G) js p ! i = ntt_level_map level p ! i" if i: "i < 256" for i
  proof (cases "even (i div d)")
    case True
    then have "i \<in> set js" using i by (simp add: sjs)
    then show ?thesis
      unfolding fold_butterfly_upd_nth[OF _ d cond, of F G i, unfolded js_def, OF distinct_filter[OF distinct_upt], folded js_def]
      using True i by (simp add: ntt_level_map_def F_def ntt_zeta_def d_def nb_def)
  next
    case False
    note o = odd_div_sub[OF d False]
    have "i - d < 256" using i by simp
    then have m: "i - d \<in> set js" "i \<notin> set js" using o(2) False by (simp_all add: sjs)
    show ?thesis
      unfolding fold_butterfly_upd_nth[OF _ d cond, of F G i, unfolded js_def, OF distinct_filter[OF distinct_upt], folded js_def]
      using False i m o(1) by (simp add: ntt_level_map_def G_def ntt_zeta_def o(3) d_def[symmetric] nb_def)
  qed
  have "fold (butterfly_upd d F G) js p = ntt_level_map level p"
    by (rule nth_equalityI) (simp_all add: assms(2) nth ntt_level_map_def)
  then show ?thesis using st by (simp add: nb_def)
qed

lemma length_ntt_level_map [simp]: "length (ntt_level_map level p) = 256"
  by (simp add: ntt_level_map_def)

lemma length_invntt_level_map [simp]: "length (invntt_level_map level p) = 256"
  by (simp add: invntt_level_map_def)

lemma rev_upt_0_8: "rev [0..<8] = [7, 6, 5, 4, 3, 2, 1, 0::nat]"
  by (simp add: upt_0_8)

lemma nttRef_levels:
  assumes "length p = 256"
  shows "nttRef p = ntt_level_map 0 (ntt_level_map 1 (ntt_level_map 2 (ntt_level_map 3
           (ntt_level_map 4 (ntt_level_map 5 (ntt_level_map 6 (ntt_level_map 7 p)))))))"
proof -
  have s: "ntt_starts level 0 k q = (2 * k, ntt_level_map level q)"
    if "level \<le> 7" "length q = 256" "k = 2 ^ (7 - level)" for level k q
    using ntt_starts_level[OF that(1,2)] that(3) by simp
  show ?thesis
    unfolding nttRef_def rev_upt_0_8
    by (simp add: s assms)
qed

lemma stride_div:
  assumes "s < (d::nat)"
  shows "(s + 2 * d * b) div (2 * d) = b" and "(s + 2 * d * b) div d = 2 * b"
proof -
  show "(s + 2 * d * b) div (2 * d) = b" using assms by simp
  have "s + 2 * d * b = s + (2 * b) * d" by simp
  then show "(s + 2 * d * b) div d = 2 * b" using assms by (metis div_mult_self1 div_less add.commute add_0 less_nat_zero_code)
qed

lemma invntt_js_fold:
  assumes "m = nb - b" and "b \<le> nb" and "2 * 2 ^ level * nb = 256" and "s < 2 ^ level"
  shows "invntt_js level (s + 2 * 2 ^ level * b) b a
     = fold (butterfly_upd (2 ^ level)
                (\<lambda>j. invntt_lo level)
                (\<lambda>j. invntt_hi (uint32 (omegasInvBitrevMontgomery ! (j div (2 * 2 ^ level))))))
             (map (\<lambda>b. s + 2 * 2 ^ level * b) [b..<nb]) a"
  using assms
proof (induction m arbitrary: b a)
  case 0
  then have "b = nb" by simp
  then have "s + 2 * 2 ^ level * b = s + 256" using "0.prems"(3) by simp
  then have "\<not> s + 2 * 2 ^ level * b < 255" by linarith
  then show ?case using \<open>b = nb\<close> by (subst invntt_js.simps) simp
next
  case (Suc m)
  define d :: nat where "d = 2 ^ level"
  have d: "0 < d" and s: "s < d" using Suc.prems(4) by (simp_all add: d_def)
  have b: "b < nb" using Suc.prems by simp
  have n: "2 * d * nb = 256" using Suc.prems(3) by (simp add: d_def)
  have lt: "s + 2 * d * b < 255"
  proof -
    have "2 * d * Suc b \<le> 2 * d * nb" using b by (intro mult_le_mono2) simp
    then show ?thesis using n s by simp
  qed
  define F where "F = (\<lambda>j::nat. invntt_lo level)"
  define G where "G = (\<lambda>j. invntt_hi (uint32 (omegasInvBitrevMontgomery ! (j div (2 * d)))))"
  have one: "invntt_butterfly level (uint32 (omegasInvBitrevMontgomery ! b)) (s + 2 * d * b) a
        = butterfly_upd d F G (s + 2 * d * b) a"
    by (simp add: invntt_butterfly_upd butterfly_upd_def F_def G_def d_def[symmetric] stride_div(1)[OF s])
  have ih: "invntt_js level (s + 2 * d * Suc b) (Suc b) a'
     = fold (butterfly_upd d F G) (map (\<lambda>b. s + 2 * d * b) [Suc b..<nb]) a'" for a'
    unfolding d_def F_def G_def
    by (rule Suc.IH) (use Suc.prems b in simp_all)
  have "invntt_js level (s + 2 * d * b) b a
      = invntt_js level (s + 2 * d * Suc b) (Suc b)
          (invntt_butterfly level (uint32 (omegasInvBitrevMontgomery ! b)) (s + 2 * d * b) a)"
    using lt by (subst invntt_js.simps) (simp add: Let_def d_def algebra_simps)
  also have "\<dots> = fold (butterfly_upd d F G) (map (\<lambda>b. s + 2 * d * b) [b..<nb]) a"
    unfolding ih one using b by (simp add: upt_conv_Cons)
  finally show ?case unfolding d_def F_def G_def .
qed

lemma stride_set:
  assumes d: "0 < (d::nat)"
  shows "set (concat (map (\<lambda>s. map (\<lambda>b. s + 2 * d * b) [0..<nb]) [0..<d]))
       = {j. j < 2 * d * nb \<and> even (j div d)}"
proof (intro set_eqI iffI)
  fix j assume "j \<in> set (concat (map (\<lambda>s. map (\<lambda>b. s + 2 * d * b) [0..<nb]) [0..<d]))"
  then obtain s b where sb: "s < d" "b < nb" "j = s + 2 * d * b" by auto
  have "2 * d * Suc b \<le> 2 * d * nb" using sb(2) by (intro mult_le_mono2) simp
  then have "j < 2 * d * nb" using sb by simp
  then show "j \<in> {j. j < 2 * d * nb \<and> even (j div d)}"
    using stride_div(2)[OF sb(1), of b] sb(3) by simp
next
  fix j assume "j \<in> {j. j < 2 * d * nb \<and> even (j div d)}"
  then have j: "j < 2 * d * nb" "even (j div d)" by simp_all
  define s where "s = j mod d"
  define b where "b = j div (2 * d)"
  have s: "s < d" using d by (simp add: s_def)
  have b: "b < nb" using j(1) d by (simp add: b_def div_less_iff_less_mult mult.commute mult.left_commute)
  have "j div d = 2 * (j div d div 2)" using j(2) by simp
  then have "d * (j div d) = 2 * d * b" by (simp add: b_def div_mult2_eq mult.commute)
  then have "j = s + 2 * d * b" unfolding s_def by (metis add.commute mult_div_mod_eq)
  then show "j \<in> set (concat (map (\<lambda>s. map (\<lambda>b. s + 2 * d * b) [0..<nb]) [0..<d]))"
    using s b by (auto intro!: bexI[of _ s] image_eqI[of _ _ b])
qed

lemma stride_distinct:
  assumes d: "0 < (d::nat)" and False: "nb \<noteq> 0"
  shows "distinct (concat (map (\<lambda>s. map (\<lambda>b. s + 2 * d * b) [0..<nb]) [0..<d]))"
proof -
  have inj: "s = s' \<and> b = b'" if "s + 2 * d * b = s' + 2 * d * b'" "s < d" "s' < d" for s s' b b'
    using stride_div(1)[of s d b] stride_div(1)[of s' d b'] that by simp
  show ?thesis
  proof (rule distinct_concat)
    show "distinct (map (\<lambda>s. map (\<lambda>b. s + 2 * d * b) [0..<nb]) [0..<d])"
    proof (simp add: distinct_map, rule inj_onI)
      fix s s' assume "s \<in> {0..<d}" "s' \<in> {0..<d}"
        and e: "map (\<lambda>b. s + 2 * d * b) [0..<nb] = map (\<lambda>b. s' + 2 * d * b) [0..<nb]"
      show "s = s'" using e False by auto
    qed
  next
    fix ys assume "ys \<in> set (map (\<lambda>s. map (\<lambda>b. s + 2 * d * b) [0..<nb]) [0..<d])"
    then obtain s where "ys = map (\<lambda>b. s + 2 * d * b) [0..<nb]" by auto
    then show "distinct ys" using d by (simp add: distinct_map inj_on_def)
  next
    fix ys zs assume "ys \<in> set (map (\<lambda>s. map (\<lambda>b. s + 2 * d * b) [0..<nb]) [0..<d])"
      and "zs \<in> set (map (\<lambda>s. map (\<lambda>b. s + 2 * d * b) [0..<nb]) [0..<d])" and ne: "ys \<noteq> zs"
    then obtain s s' where y: "ys = map (\<lambda>b. s + 2 * d * b) [0..<nb]" "s < d"
      and z: "zs = map (\<lambda>b. s' + 2 * d * b) [0..<nb]" "s' < d" by auto
    have "s \<noteq> s'" using ne y z by auto
    then show "set ys \<inter> set zs = {}"
      using inj[OF _ y(2) z(2)] unfolding y(1) z(1) by auto
  qed
qed

lemma fold_concat_map:
  "fold f (concat (map g xs)) a = fold (\<lambda>x. fold f (g x)) xs a"
  by (induction xs arbitrary: a) simp_all

lemma invntt_level_form:
  assumes "level \<le> 7" and "length a = 256"
  shows "invntt_level level a = invntt_level_map level a"
proof -
  define d :: nat where "d = 2 ^ level"
  define nb :: nat where "nb = 2 ^ (7 - level)"
  have d: "0 < d" by (simp add: d_def)
  have nb: "nb \<noteq> 0" by (simp add: nb_def)
  have n: "2 * d * nb = 256" unfolding d_def nb_def by (rule pow_split[OF assms(1)])
  define F where "F = (\<lambda>j::nat. invntt_lo level)"
  define G where "G = (\<lambda>j. invntt_hi (uint32 (omegasInvBitrevMontgomery ! (j div (2 * d)))))"
  define js where "js = concat (map (\<lambda>s. map (\<lambda>b. s + 2 * d * b) [0..<nb]) [0..<d])"
  have one: "invntt_js level s 0 a' = fold (butterfly_upd d F G) (map (\<lambda>b. s + 2 * d * b) [0..<nb]) a'"
    if "s < d" for s a'
    using invntt_js_fold[OF refl, of 0 nb level s a'] n that by (simp add: d_def F_def G_def)
  have "invntt_level level a = fold (\<lambda>s. fold (butterfly_upd d F G) (map (\<lambda>b. s + 2 * d * b) [0..<nb])) [0..<d] a"
    unfolding invntt_level_def d_def[symmetric]
    by (rule fold_cong) (auto simp add: one)
  also have "\<dots> = fold (butterfly_upd d F G) js a"
    unfolding js_def fold_concat_map ..
  finally have st: "invntt_level level a = fold (butterfly_upd d F G) js a" .
  have sjs: "j \<in> set js \<longleftrightarrow> j < 256 \<and> even (j div d)" for j
    unfolding js_def stride_set[OF d] n by simp
  have dist: "distinct js" unfolding js_def by (rule stride_distinct[OF d nb])
  have cond: "\<forall>j\<in>set js. j + d \<notin> set js \<and> j + d < length a"
  proof
    fix j assume "j \<in> set js"
    then have j: "j < 2 * d * nb" "even (j div d)" by (simp_all add: sjs n)
    show "j + d \<notin> set js \<and> j + d < length a"
      using even_div_add[OF d j(2)] even_div_bound[OF d j(2) j(1)] by (simp add: sjs assms(2) n)
  qed
  have nth: "fold (butterfly_upd d F G) js a ! i = invntt_level_map level a ! i" if i: "i < 256" for i
  proof (cases "even (i div d)")
    case True
    then have "i \<in> set js" using i by (simp add: sjs)
    then show ?thesis
      unfolding fold_butterfly_upd_nth[OF dist d cond]
      using True i by (simp add: invntt_level_map_def F_def d_def)
  next
    case False
    note o = odd_div_sub[OF d False]
    have "i - d < 256" using i by simp
    then have m: "i - d \<in> set js" "i \<notin> set js" using o(2) False by (simp_all add: sjs)
    show ?thesis
      unfolding fold_butterfly_upd_nth[OF dist d cond]
      using False i m o(1) by (simp add: invntt_level_map_def G_def invntt_omega_def o(3) d_def[symmetric])
  qed
  have "fold (butterfly_upd d F G) js a = invntt_level_map level a"
    by (rule nth_equalityI) (simp_all add: assms(2) nth invntt_level_map_def)
  then show ?thesis using st by simp
qed

lemma fold_update_map:
  assumes "n \<le> length a"
  shows "fold (\<lambda>i a. a[i := f i (a ! i)]) [0..<n] a = map (\<lambda>i. f i (a ! i)) [0..<n] @ drop n a"
  using assms
proof (induction n)
  case 0
  then show ?case by simp
next
  case (Suc n)
  have "fold (\<lambda>i a. a[i := f i (a ! i)]) [0..<Suc n] a
      = (map (\<lambda>i. f i (a ! i)) [0..<n] @ drop n a)[n := f n ((map (\<lambda>i. f i (a ! i)) [0..<n] @ drop n a) ! n)]"
    using Suc by simp
  also have "\<dots> = map (\<lambda>i. f i (a ! i)) [0..<n] @ (drop n a)[0 := f n (a ! n)]"
    using Suc.prems by (simp add: list_update_append nth_append)
  also have "(drop n a)[0 := f n (a ! n)] = f n (a ! n) # drop (Suc n) a"
    using Suc.prems by (metis Cons_nth_drop_Suc Suc_le_lessD list_update_code(2))
  finally show ?case by simp
qed


lemma length_psis: "length psisInvMontgomery = 256"
  by (simp add: psisInvMontgomery_def)

lemma invnttRef_levels:
  assumes "length a = 256"
  shows "invnttRef a = psis_mul (invntt_level_map 7 (invntt_level_map 6 (invntt_level_map 5
           (invntt_level_map 4 (invntt_level_map 3 (invntt_level_map 2 (invntt_level_map 1
           (invntt_level_map 0 a))))))))"
proof -
  have l: "fold invntt_level [0..<8] a = invntt_level_map 7 (invntt_level_map 6 (invntt_level_map 5
           (invntt_level_map 4 (invntt_level_map 3 (invntt_level_map 2 (invntt_level_map 1
           (invntt_level_map 0 a)))))))"
    unfolding upt_0_8 by (simp add: invntt_level_form assms)
  have f: "fold (\<lambda>i a. a[i := montgomeryReduce (uint32 (a ! i) * uint32 (psisInvMontgomery ! i))]) [0..<256] b
         = psis_mul b" if "length b = 256" for b
    using fold_update_map[of 256 b "\<lambda>i x. montgomeryReduce (uint32 x * uint32 (psisInvMontgomery ! i))"] that
    by (simp add: psis_mul_def)
  show ?thesis
    unfolding invnttRef_def Let_def length_psis l
    by (rule f) simp
qed

section \<open>What the butterflies compute modulo \<open>q\<close>\<close>

lemma barrett_le: "uint (barrettReduce a) \<le> 11768"
  using barrettReduce_le[of a] unfolding uint_nat by linarith

lemma nat_mod_int:
  assumes "(a::nat) mod 7681 = b mod 7681"
  shows "7681 dvd int a - int b"
proof -
  have "int (a mod 7681) = int (b mod 7681)" using assms by simp
  then have "int a mod 7681 = int b mod 7681" unfolding zmod_int by simp
  then show ?thesis unfolding mod_eq_dvd_iff .
qed

lemma barrett_dvd: "7681 dvd uint (barrettReduce a) - uint a"
  unfolding uint_nat by (rule nat_mod_int[OF barrettReduce_mod])

lemma uint_u16_less: "uint (x::u16) < 65536"
  using unat_u16_less[of x] unfolding uint_nat by linarith

lemma uint_ge0: "0 \<le> uint (x::'a::len word)"
  unfolding uint_nat by (rule of_nat_0_le_iff)

lemma mont_sem:
  assumes "unat a < 7681 * 2 ^ 18"
  shows "uint (montgomeryReduce a) < 15362" and "7681 dvd uint (montgomeryReduce a) - uint a * 225"
proof -
  show "uint (montgomeryReduce a) < 15362"
    using montgomeryReduce_range(1)[OF assms] unfolding uint_nat by linarith
  have "7681 dvd int (unat (montgomeryReduce a)) - int (unat a * 225)"
    by (rule nat_mod_int[OF montgomeryReduce_Rinv[OF assms]])
  then show "7681 dvd uint (montgomeryReduce a) - uint a * 225"
    unfolding uint_nat by simp
qed

lemma mont_mul16:
  assumes "unat (z::u16) < 7681"
  shows "uint (montgomeryReduce (uint32 z * uint32 (y::u16))) < 15362"
    and "7681 dvd uint (montgomeryReduce (uint32 z * uint32 y)) - uint z * 225 * uint y"
proof -
  have "unat z * unat y < 7681 * 65536"
    using assms unat_u16_less[of y] by (intro mult_strict_mono) simp_all
  then have lt: "unat z * unat y < 7681 * 2 ^ 18" "unat z * unat y < 2 ^ 32" by simp_all
  have "unat (uint32 z) * unat (uint32 y) < 2 ^ LENGTH(32)"
    using lt(2) unfolding unat_ucast_16_32 by simp
  then have "unat (uint32 z * uint32 y) = unat (uint32 z) * unat (uint32 y)"
    by (rule unat_mult_lem[THEN iffD1])
  then have u: "unat (uint32 z * uint32 y) = unat z * unat y"
    unfolding unat_ucast_16_32 .
  have r: "unat (uint32 z * uint32 y) < 7681 * 2 ^ 18" unfolding u by (rule lt(1))
  show "uint (montgomeryReduce (uint32 z * uint32 y)) < 15362"
    by (rule mont_sem(1)[OF r])
  have "uint (uint32 z * uint32 y) = uint z * uint y"
    unfolding uint_nat u by simp
  then have e: "uint (uint32 z * uint32 y) * 225 = uint z * 225 * uint y"
    by (simp only: mult_ac)
  show "7681 dvd uint (montgomeryReduce (uint32 z * uint32 y)) - uint z * 225 * uint y"
    using mont_sem(2)[OF r] unfolding e .
qed

lemma uint_add16:
  assumes "uint (x::u16) + uint (y::u16) < 65536"
  shows "uint (x + y) = uint x + uint y"
  by (rule uint_add_lem[THEN iffD1]) (use assms in simp)

lemma uint_sub16:
  assumes "uint (y::u16) \<le> uint (x::u16)"
  shows "uint (x - y) = uint x - uint y"
  by (rule uint_sub_lem[THEN iffD1]) (rule assms)

lemma ntt_hi_sem:
  assumes "unat (z::u16) < 7681" and "uint x \<le> 34811"
  shows "uint (ntt_hi z x y) \<le> 11768"
    and "7681 dvd uint (ntt_hi z x y) - (uint x - uint z * 225 * uint y)"
proof -
  define t where "t = montgomeryReduce (uint32 z * uint32 y)"
  have t: "uint t < 15362" "7681 dvd uint t - uint z * 225 * uint y"
    using mont_mul16[OF assms(1), of y] by (simp_all add: t_def)
  have c: "uint (30724::u16) = 30724" by simp
  have "uint x + uint (30724::u16) < 65536" unfolding c using assms(2) by linarith
  then have "uint (x + 30724) = uint x + uint (30724::u16)" by (rule uint_add16)
  then have a: "uint (x + 30724) = uint x + 30724" unfolding c .
  have "uint t \<le> uint (x + 30724)" using t(1) a uint_ge0[of x] by linarith
  then have s: "uint (x + 30724 - t) = uint x + 30724 - uint t"
    unfolding a[symmetric] by (rule uint_sub16)
  have h: "ntt_hi z x y = barrettReduce (x + 30724 - t)" by (simp add: ntt_hi_def t_def)
  show "uint (ntt_hi z x y) \<le> 11768" unfolding h by (rule barrett_le)
  have "7681 dvd uint (ntt_hi z x y) - (uint x + 30724 - uint t)"
    unfolding h s[symmetric] by (rule barrett_dvd)
  moreover have "uint (ntt_hi z x y) - (uint x - uint z * 225 * uint y)
     = (uint (ntt_hi z x y) - (uint x + 30724 - uint t)) - (uint t - uint z * 225 * uint y) + 7681 * 4"
    by simp
  ultimately show "7681 dvd uint (ntt_hi z x y) - (uint x - uint z * 225 * uint y)"
    using t(2) by (metis dvd_add dvd_diff dvd_triv_left)
qed

lemma ntt_lo_sem:
  assumes "unat (z::u16) < 7681" and "uint x \<le> 50173"
  shows "uint (ntt_lo level z x y) \<le> (if odd level then uint x + 15361 else 11768)"
    and "7681 dvd uint (ntt_lo level z x y) - (uint x + uint z * 225 * uint y)"
proof -
  define t where "t = montgomeryReduce (uint32 z * uint32 y)"
  have t: "uint t < 15362" "7681 dvd uint t - uint z * 225 * uint y"
    using mont_mul16[OF assms(1), of y] by (simp_all add: t_def)
  have "uint x + uint t < 65536" using assms(2) t(1) by linarith
  then have a: "uint (x + t) = uint x + uint t" by (rule uint_add16)
  have h: "ntt_lo level z x y = (if odd level then x + t else barrettReduce (x + t))"
    by (simp add: ntt_lo_def t_def)
  show "uint (ntt_lo level z x y) \<le> (if odd level then uint x + 15361 else 11768)"
  proof (cases "odd level")
    case True
    then show ?thesis unfolding h using a t(1) by simp
  next
    case False
    then show ?thesis unfolding h using barrett_le[of "x + t"] by simp
  qed
  have "7681 dvd uint (ntt_lo level z x y) - (uint x + uint t)"
  proof (cases "odd level")
    case True
    then show ?thesis unfolding h using a by simp
  next
    case False
    then show ?thesis unfolding h using barrett_dvd[of "x + t"] a by simp
  qed
  moreover have "uint (ntt_lo level z x y) - (uint x + uint z * 225 * uint y)
     = (uint (ntt_lo level z x y) - (uint x + uint t)) + (uint t - uint z * 225 * uint y)"
    by simp
  ultimately show "7681 dvd uint (ntt_lo level z x y) - (uint x + uint z * 225 * uint y)"
    using t(2) by (metis dvd_add)
qed

lemma invntt_lo_sem:
  assumes "uint x + uint y < 65536"
  shows "uint (invntt_lo level x y) \<le> (if odd level then 11768 else uint x + uint y)"
    and "7681 dvd uint (invntt_lo level x y) - (uint x + uint y)"
proof -
  have a: "uint (x + y) = uint x + uint y" using assms by (rule uint_add16)
  show "uint (invntt_lo level x y) \<le> (if odd level then 11768 else uint x + uint y)"
    using a barrett_le[of "x + y"] by (simp add: invntt_lo_def)
  show "7681 dvd uint (invntt_lo level x y) - (uint x + uint y)"
    using barrett_dvd[of "x + y"] a by (simp add: invntt_lo_def)
qed

lemma invntt_hi_sem:
  assumes "unat (w::u32) < 7681" and "uint (y::u16) \<le> 30724"
  shows "uint (invntt_hi w x y) < 15362"
    and "7681 dvd uint (invntt_hi w x y) - uint w * 225 * (uint x - uint y)"
proof -
  define s where "s = uint32 x + 30724 - uint32 y"
  have xl: "unat x < 65536" by (rule unat_u16_less)
  have yl: "unat y \<le> 30724" using assms(2) unfolding uint_nat by linarith
  have c: "unat (30724::u32) = 30724" by simp
  have "unat (uint32 x) + unat (30724::u32) < 2 ^ LENGTH(32)"
    unfolding unat_ucast_16_32 c using xl by simp
  then have "unat (uint32 x + 30724) = unat (uint32 x) + unat (30724::u32)"
    by (rule unat_add_lem[THEN iffD1])
  then have a: "unat (uint32 x + 30724) = unat x + 30724"
    unfolding unat_ucast_16_32 c .
  have "uint32 y \<le> uint32 x + 30724"
    unfolding word_le_nat_alt a unat_ucast_16_32 using yl by linarith
  then have "unat (uint32 x + 30724 - uint32 y) = unat (uint32 x + 30724) - unat (uint32 y)"
    by (rule unat_sub)
  then have s: "unat s = unat x + 30724 - unat y"
    unfolding s_def a unat_ucast_16_32 .
  have sl: "unat s < 96260" unfolding s using xl by linarith
  have "unat w * unat s < 7681 * 96260"
    using assms(1) sl by (intro mult_strict_mono) simp_all
  then have lt: "unat w * unat s < 7681 * 2 ^ 18" "unat w * unat s < 2 ^ LENGTH(32)" by simp_all
  have u: "unat (w * s) = unat w * unat s"
    using lt(2) by (rule unat_mult_lem[THEN iffD1])
  have r: "unat (w * s) < 7681 * 2 ^ 18" unfolding u by (rule lt(1))
  have h: "invntt_hi w x y = montgomeryReduce (w * s)" by (simp add: invntt_hi_def s_def)
  show "uint (invntt_hi w x y) < 15362"
    unfolding h by (rule mont_sem(1)[OF r])
  have ints: "int (unat s) = uint x + 30724 - uint y"
    unfolding s uint_nat using yl by simp
  have "uint (w * s) = uint w * (uint x + 30724 - uint y)"
    unfolding ints[symmetric] unfolding uint_nat u by simp
  then have e: "uint (w * s) * 225 = uint w * 225 * (uint x + 30724 - uint y)"
    by (simp only: mult_ac)
  have "7681 dvd uint (invntt_hi w x y) - uint w * 225 * (uint x + 30724 - uint y)"
    unfolding h using mont_sem(2)[OF r] unfolding e .
  moreover have "uint (invntt_hi w x y) - uint w * 225 * (uint x - uint y)
      = (uint (invntt_hi w x y) - uint w * 225 * (uint x + 30724 - uint y)) + 7681 * (uint w * 900)"
    by (simp add: algebra_simps)
  ultimately show "7681 dvd uint (invntt_hi w x y) - uint w * 225 * (uint x - uint y)"
    by (metis dvd_add dvd_triv_left)
qed

lemma bfly_even_alg:
  fixes q :: int
  assumes "q dvd g' - (gi + gk)" "q dvd gi - S * fi" "q dvd gk - S * fk"
    "q dvd fi - (f'i + Z * f'k)" "q dvd fk - (f'i - Z * f'k)"
  shows "q dvd g' - 2 * S * f'i"
proof -
  have "g' - 2 * S * f'i = (g' - (gi + gk)) + (gi - S * fi) + (gk - S * fk)
        + S * (fi - (f'i + Z * f'k)) + S * (fk - (f'i - Z * f'k))"
    by (simp add: algebra_simps)
  then show ?thesis using assms by (simp only: dvd_add dvd_mult)
qed

lemma bfly_odd_alg:
  fixes q :: int
  assumes "q dvd g' - W * (gj - gi)" "q dvd gj - S * fj" "q dvd gi - S * fi"
    "q dvd fj - (f'j + Z * f'i)" "q dvd fi - (f'j - Z * f'i)" "q dvd W * Z - P"
  shows "q dvd g' - 2 * S * P * f'i"
proof -
  have "g' - 2 * S * P * f'i = (g' - W * (gj - gi)) + W * (gj - S * fj) - W * (gi - S * fi)
        + W * S * (fj - (f'j + Z * f'i)) - W * S * (fi - (f'j - Z * f'i)) + 2 * S * f'i * (W * Z - P)"
    by (simp add: algebra_simps)
  then show ?thesis using assms by (simp only: dvd_add dvd_diff dvd_mult)
qed

section \<open>Facts about the twiddle tables\<close>

lemma zetas_small_all: "list_all (\<lambda>z. unat z < 7681) zetas"
  by (simp add: zetas_def)

lemma omegas_small_all: "list_all (\<lambda>z. unat z < 7681) omegasInvBitrevMontgomery"
  by (simp add: omegasInvBitrevMontgomery_def)

lemma psis_small_all: "list_all (\<lambda>z. unat z < 7681) psisInvMontgomery"
  by (simp add: psisInvMontgomery_def)

lemma pow62: "(62::int) ^ 2 ^ 0 mod 7681 = 62" "(62::int) ^ 2 ^ 1 mod 7681 = 3844" "(62::int) ^ 2 ^ 2 mod 7681 = 5773"
  "(62::int) ^ 2 ^ 3 mod 7681 = 7351" "(62::int) ^ 2 ^ 4 mod 7681 = 1366" "(62::int) ^ 2 ^ 5 mod 7681 = 7154"
  "(62::int) ^ 2 ^ 6 mod 7681 = 1213" "(62::int) ^ 2 ^ 7 mod 7681 = 4298"
  by simp_all

lemma twiddle_products_0:
  "list_all2 (\<lambda>w z. (uint w * 225 * (uint z * 225)) mod 7681 = 62)
     (take 128 omegasInvBitrevMontgomery) (take 128 (drop 128 zetas))"
  by (simp add: omegasInvBitrevMontgomery_def zetas_def)

lemma twiddle_products_1:
  "list_all2 (\<lambda>w z. (uint w * 225 * (uint z * 225)) mod 7681 = 3844)
     (take 64 omegasInvBitrevMontgomery) (take 64 (drop 64 zetas))"
  by (simp add: omegasInvBitrevMontgomery_def zetas_def)

lemma twiddle_products_2:
  "list_all2 (\<lambda>w z. (uint w * 225 * (uint z * 225)) mod 7681 = 5773)
     (take 32 omegasInvBitrevMontgomery) (take 32 (drop 32 zetas))"
  by (simp add: omegasInvBitrevMontgomery_def zetas_def)

lemma twiddle_products_3:
  "list_all2 (\<lambda>w z. (uint w * 225 * (uint z * 225)) mod 7681 = 7351)
     (take 16 omegasInvBitrevMontgomery) (take 16 (drop 16 zetas))"
  by (simp add: omegasInvBitrevMontgomery_def zetas_def)

lemma twiddle_products_4:
  "list_all2 (\<lambda>w z. (uint w * 225 * (uint z * 225)) mod 7681 = 1366)
     (take 8 omegasInvBitrevMontgomery) (take 8 (drop 8 zetas))"
  by (simp add: omegasInvBitrevMontgomery_def zetas_def)

lemma twiddle_products_5:
  "list_all2 (\<lambda>w z. (uint w * 225 * (uint z * 225)) mod 7681 = 7154)
     (take 4 omegasInvBitrevMontgomery) (take 4 (drop 4 zetas))"
  by (simp add: omegasInvBitrevMontgomery_def zetas_def)

lemma twiddle_products_6:
  "list_all2 (\<lambda>w z. (uint w * 225 * (uint z * 225)) mod 7681 = 1213)
     (take 2 omegasInvBitrevMontgomery) (take 2 (drop 2 zetas))"
  by (simp add: omegasInvBitrevMontgomery_def zetas_def)

lemma twiddle_products_7:
  "list_all2 (\<lambda>w z. (uint w * 225 * (uint z * 225)) mod 7681 = 4298)
     (take 1 omegasInvBitrevMontgomery) (take 1 (drop 1 zetas))"
  by (simp add: omegasInvBitrevMontgomery_def zetas_def)

section \<open>Reduction laws\<close>

text \<open>
  Claim C4 as stated, for every 32-bit input of \<open>montgomeryReduce\<close>, does not hold: at
  \<open>a = 2 ^ 32 - 2 ^ 18\<close> the result is \<open>16383\<close>, which is not below \<open>2 * q = 15362\<close>.
\<close>

theorem C4_montgomeryReduce_all_inputs_counterexample:
  "\<not> unat (montgomeryReduce 4294705152) < 2 * 7681"
  by (simp add: montgomeryReduce_def)

text \<open>
  Claim C4, amended: for every 32-bit input \<open>a < q * R\<close> with \<open>R = 2 ^ 18\<close> (this covers
  the documented operating range \<open>a \<le> (q - 1) * R\<close>), \<open>montgomeryReduce a\<close> lies in
  \<open>[0, 2 * q)\<close> and is congruent to \<open>a * R\<^sup>-\<^sup>1\<close> modulo \<open>q\<close> (\<open>R\<^sup>-\<^sup>1 = 225\<close>); and for every
  16-bit \<open>x\<close>, \<open>freeze x\<close> lies in \<open>[0, q)\<close> and is congruent to \<open>x\<close> modulo \<open>q\<close>.
\<close>

theorem C4_reduction_laws:
  "(unat a < 7681 * 2 ^ 18 \<longrightarrow>
      unat (montgomeryReduce a) < 2 * 7681
    \<and> (unat (montgomeryReduce a) * 2 ^ 18) mod 7681 = unat a mod 7681
    \<and> unat (montgomeryReduce a) mod 7681 = (unat a * 225) mod 7681
    \<and> (2 ^ 18 * 225) mod 7681 = (1::nat))
   \<and> unat (freeze x) < 7681
   \<and> unat (freeze x) mod 7681 = unat x mod 7681"
  using montgomeryReduce_range[of a] montgomeryReduce_Rinv[of a]
  by (simp add: unat_freeze)

theorem C4_reduction_laws_witness:
  "unat (2013265919 :: u32) < 7681 * 2 ^ 18
   \<and> unat (montgomeryReduce 2013265919) < 2 * 7681
   \<and> (unat (montgomeryReduce 2013265919) * 2 ^ 18) mod 7681 = unat (2013265919 :: u32) mod 7681
   \<and> unat (freeze 65535) < 7681
   \<and> unat (freeze 65535) mod 7681 = unat (65535 :: u16) mod 7681"
  using C4_reduction_laws[of 2013265919 65535] by simp

section \<open>The 13-bit serialisation is lossless up to normalisation\<close>

text \<open>
  Claim C10: for every polynomial \<open>p\<close> (256 coefficients), \<open>poly.fromBytes\<close> applied to
  \<open>poly.toBytes p\<close> is the polynomial whose \<open>i\<close>-th coefficient is \<open>freeze (p.coeffs[i])\<close>;
  when every coefficient of \<open>p\<close> already lies in \<open>[0, q)\<close> the round trip is the identity;
  and \<open>polyVec.fromBytes\<close> after \<open>polyVec.toBytes\<close> does the same polynomial by polynomial.
\<close>

theorem C10_toBytes_fromBytes:
  "(length p = 256 \<longrightarrow>
      poly_fromBytes (poly_toBytes p) = map freeze p
    \<and> (\<forall>i<256. poly_fromBytes (poly_toBytes p) ! i = freeze (p ! i))
    \<and> ((\<forall>x\<in>set p. unat x < 7681) \<longrightarrow> poly_fromBytes (poly_toBytes p) = p))
   \<and> ((\<forall>p\<in>set v. length p = 256) \<longrightarrow>
        polyVec_fromBytes (length v) (polyVec_toBytes v) = map (map freeze) v
      \<and> ((\<forall>p\<in>set v. \<forall>x\<in>set p. unat x < 7681) \<longrightarrow>
           polyVec_fromBytes (length v) (polyVec_toBytes v) = v))"
proof -
  have v: "map (map freeze) v = v" if "\<forall>p\<in>set v. \<forall>x\<in>set p. unat x < 7681"
    using that by (intro map_idI map_freeze_id) simp
  show ?thesis
    using poly_fromBytes_toBytes[of p] map_freeze_id[of p] polyVec_fromBytes_toBytes[of v] v
    by simp
qed

theorem C10_toBytes_fromBytes_witness:
  "length (replicate 256 (8000::u16)) = 256
   \<and> poly_fromBytes (poly_toBytes (replicate 256 8000)) = map freeze (replicate 256 8000)
   \<and> list_all (\<lambda>x. unat x < 7681) (replicate 256 (5::u16))
   \<and> poly_fromBytes (poly_toBytes (replicate 256 5)) = replicate 256 5
   \<and> list_all (\<lambda>p. length p = 256) [replicate 256 (8000::u16), replicate 256 5]
   \<and> polyVec_fromBytes 2 (polyVec_toBytes [replicate 256 8000, replicate 256 5])
        = map (map freeze) [replicate 256 8000, replicate 256 5]"
proof -
  let ?p = "replicate 256 (8000::u16)" and ?r = "replicate 256 (5::u16)"
  have l: "length ?p = 256" and l': "length ?r = 256" by simp_all
  have s: "\<forall>x\<in>set ?r. unat x < 7681" by simp
  have v: "\<forall>p\<in>set [?p, ?r]. length p = 256" by simp
  have len2: "length [?p, ?r] = 2" by simp
  have 1: "poly_fromBytes (poly_toBytes ?p) = map freeze ?p"
    using C10_toBytes_fromBytes[of ?p "[?p, ?r]"] l by blast
  have 2: "poly_fromBytes (poly_toBytes ?r) = ?r"
    using C10_toBytes_fromBytes[of ?r "[]"] l' s by blast
  have 3: "polyVec_fromBytes 2 (polyVec_toBytes [?p, ?r]) = map (map freeze) [?p, ?r]"
    using C10_toBytes_fromBytes[of ?p "[?p, ?r]"] v unfolding len2 by blast
  have 4: "list_all (\<lambda>x. unat x < 7681) ?r" by (simp add: list_all_iff)
  have 5: "list_all (\<lambda>p. length p = 256) [?p, ?r]" by simp
  show ?thesis using l 1 2 3 4 5 by blast
qed

section \<open>Compression is idempotent on its range, and lossy\<close>

text \<open>
  Claim C6: for every compressed byte string \<open>c\<close> of a polynomial (96 bytes, three bits per
  coefficient) \<open>compress (decompress c) = c\<close>; for every compressed byte string of a vector
  of \<open>k\<close> polynomials (\<open>k * 352\<close> bytes, eleven bits per coefficient) likewise; and there is
  a polynomial \<open>p\<close> with \<open>decompress (compress p) \<noteq> p\<close>.
\<close>

theorem C6_compress_decompress:
  "(length c = 96 \<longrightarrow> poly_compress (poly_decompress c) = c)
   \<and> (length cv = k * 352 \<longrightarrow> polyVec_compress (polyVec_decompress k cv) = cv)
   \<and> (\<exists>p. length p = 256 \<and> poly_decompress (poly_compress p) \<noteq> p)"
proof -
  have "poly_decompress (poly_compress (replicate 256 1)) \<noteq> replicate 256 1"
    by code_simp
  then have "\<exists>p. length p = 256 \<and> poly_decompress (poly_compress p) \<noteq> p"
    by (intro exI[of _ "replicate 256 1"]) simp
  then show ?thesis
    using poly_compress_decompress[of c] polyVec_compress_decompress[of cv k] by blast
qed

theorem C6_compress_decompress_witness:
  "length (replicate 96 (173::u8)) = 96
   \<and> poly_compress (poly_decompress (replicate 96 173)) = replicate 96 173
   \<and> length (replicate 704 (173::u8)) = 2 * 352
   \<and> polyVec_compress (polyVec_decompress 2 (replicate 704 173)) = replicate 704 173"
proof -
  have 1: "length (replicate 96 (173::u8)) = 96" by simp
  have 2: "length (replicate 704 (173::u8)) = 2 * 352" by simp
  show ?thesis
    using C6_compress_decompress[of "replicate 96 173" "replicate 704 173" 2] 1 2 by blast
qed

section \<open>Private-key integrity\<close>

text \<open>
  Claim C8: for each of the three parameter sets, a byte string of length
  \<open>PrivateKeySize\<close> whose embedded 32-byte hash field differs from SHA3-256 of the embedded
  public-key bytes is rejected by \<open>PrivateKeyFromBytes\<close> with \<open>ErrInvalidPrivateKey\<close> (no key
  is returned), and a byte string of any other length is rejected with
  \<open>ErrInvalidKeySize\<close>; the two errors are distinct.
\<close>

theorem C8_PrivateKeyFromBytes_rejects:
  assumes "P \<in> set allParams"
  shows "(length b = PrivateKeySize P
          \<and> go_slice b (indcpaSecretKeySize P + publicKeySize P) (indcpaSecretKeySize P + publicKeySize P + 32)
              \<noteq> Sum256 H (go_slice b (indcpaSecretKeySize P) (indcpaSecretKeySize P + publicKeySize P))
          \<longrightarrow> PrivateKeyFromBytes H P b = Inl (Returned ErrInvalidPrivateKey))
       \<and> (length b \<noteq> PrivateKeySize P \<longrightarrow> PrivateKeyFromBytes H P b = Inl (Returned ErrInvalidKeySize))
       \<and> ErrInvalidPrivateKey \<noteq> ErrInvalidKeySize"
  using PrivateKeyFromBytes_bad_hash[OF assms, of b H] PrivateKeyFromBytes_wrong_length[of b P H]
  by (simp add: PrivateKeySize_def)

theorem C8_PrivateKeyFromBytes_rejects_witness:
  "Kyber512 \<in> set allParams
   \<and> length (replicate 1632 (1::u8)) = PrivateKeySize Kyber512
   \<and> go_slice (replicate 1632 (1::u8)) (indcpaSecretKeySize Kyber512 + publicKeySize Kyber512)
        (indcpaSecretKeySize Kyber512 + publicKeySize Kyber512 + 32)
       \<noteq> Sum256 zero_sha3 (go_slice (replicate 1632 1) (indcpaSecretKeySize Kyber512)
             (indcpaSecretKeySize Kyber512 + publicKeySize Kyber512))
   \<and> PrivateKeyFromBytes zero_sha3 Kyber512 (replicate 1632 1) = Inl (Returned ErrInvalidPrivateKey)
   \<and> length (replicate 7 (1::u8)) \<noteq> PrivateKeySize Kyber512
   \<and> PrivateKeyFromBytes zero_sha3 Kyber512 (replicate 7 1) = Inl (Returned ErrInvalidKeySize)"
proof -
  have 1: "Kyber512 \<in> set allParams" by (simp add: allParams_def)
  have 2: "length (replicate 1632 (1::u8)) = PrivateKeySize Kyber512"
    by (simp add: PrivateKeySize_def Kyber512_fields)
  have 3: "go_slice (replicate 1632 (1::u8)) (indcpaSecretKeySize Kyber512 + publicKeySize Kyber512)
        (indcpaSecretKeySize Kyber512 + publicKeySize Kyber512 + 32)
       \<noteq> Sum256 zero_sha3 (go_slice (replicate 1632 1) (indcpaSecretKeySize Kyber512)
             (indcpaSecretKeySize Kyber512 + publicKeySize Kyber512))"
    by (simp add: Kyber512_fields go_slice_def zero_sha3_def replicate_eq_replicate)
  have 4: "length (replicate 7 (1::u8)) \<noteq> PrivateKeySize Kyber512"
    by (simp add: PrivateKeySize_def Kyber512_fields)
  show ?thesis
    using 1 2 3 4 C8_PrivateKeyFromBytes_rejects[OF 1, of "replicate 1632 1" zero_sha3]
      C8_PrivateKeyFromBytes_rejects[OF 1, of "replicate 7 1" zero_sha3]
    by blast
qed

section \<open>Serialisation round trip of the keys\<close>

text \<open>
  Claim C7: for each of the three parameter sets and every key pair \<open>(pk, sk)\<close> that
  \<open>GenerateKeyPair\<close> returns, \<open>PrivateKeyFromBytes (sk.Bytes())\<close> succeeds with a private key
  equal to \<open>sk\<close> in every field (packed IND-CPA secret key, packed public key, cached hash,
  \<open>z\<close>, parameter set), \<open>PublicKeyFromBytes (pk.Bytes())\<close> succeeds with \<open>pk\<close>, and the encodings
  have the sizes of the table: 1632/736, 2400/1088 and 3168/1440 bytes.
\<close>

theorem C7_key_serialisation_roundtrip:
  assumes "P \<in> set allParams" and "sha3_sizes H"
    and "GenerateKeyPair H P rng = Some (Inr ((pk, sk), rng'))"
  shows "PrivateKeyFromBytes H P (PrivateKey_Bytes sk) = Inr sk
       \<and> PublicKeyFromBytes H P (PublicKey_Bytes pk) = Inr pk
       \<and> length (PrivateKey_Bytes sk) = PrivateKeySize P
       \<and> length (PublicKey_Bytes pk) = PublicKeySize P
       \<and> PrivateKeySize Kyber512 = 1632 \<and> PublicKeySize Kyber512 = 736
       \<and> PrivateKeySize Kyber768 = 2400 \<and> PublicKeySize Kyber768 = 1088
       \<and> PrivateKeySize Kyber1024 = 3168 \<and> PublicKeySize Kyber1024 = 1440"
proof -
  note g = GenerateKeyPair_shape[OF assms(3)]
  note s = allParams_sizes[OF assms(1)]
  have lh: "length (Sum256 H (pk_packed (pub_pk (priv_PublicKey sk)))) = 32"
    using assms(2) by (simp add: sha3_sizes_def)
  have 1: "PrivateKeyFromBytes H P (PrivateKey_Bytes sk) = Inr sk"
    and 2: "length (PrivateKey_Bytes sk) = secretKeySize P"
    using PrivateKey_roundtrip[OF assms(1), of sk H] g lh by simp_all
  have 3: "PublicKeyFromBytes H P (PublicKey_Bytes pk) = Inr pk"
    using PublicKey_roundtrip[of pk P H] g by simp
  have 4: "length (PublicKey_Bytes pk) = PublicKeySize P"
    using g s by (simp add: PublicKey_Bytes_def indcpaPublicKey_toBytes_def PublicKeySize_def)
  show ?thesis
    using 1 2 3 4
    by (simp add: PrivateKeySize_def PublicKeySize_def Kyber512_fields Kyber768_fields Kyber1024_fields)
qed

theorem C7_key_serialisation_roundtrip_witness:
  "Kyber512 \<in> set allParams \<and> sha3_sizes zero_sha3
   \<and> (\<exists>pk sk rng'.
         GenerateKeyPair zero_sha3 Kyber512 (replicate 64 7) = Some (Inr ((pk, sk), rng'))
       \<and> PrivateKeyFromBytes zero_sha3 Kyber512 (PrivateKey_Bytes sk) = Inr sk
       \<and> PublicKeyFromBytes zero_sha3 Kyber512 (PublicKey_Bytes pk) = Inr pk
       \<and> length (PrivateKey_Bytes sk) = 1632
       \<and> length (PublicKey_Bytes pk) = 736)"
proof -
  have P: "Kyber512 \<in> set allParams" by (simp add: allParams_def)
  have H: "sha3_sizes zero_sha3" by (simp add: sha3_sizes_def zero_sha3_def)
  obtain pk sk where g: "GenerateKeyPair zero_sha3 Kyber512 (replicate 64 7)
      = Some (Inr ((pk, sk), drop 64 (replicate 64 7)))"
    using GenerateKeyPair_returns[OF P, of "replicate 64 7" zero_sha3] by (auto simp add: genMatrix_zero)
  have "PrivateKeyFromBytes zero_sha3 Kyber512 (PrivateKey_Bytes sk) = Inr sk
       \<and> PublicKeyFromBytes zero_sha3 Kyber512 (PublicKey_Bytes pk) = Inr pk
       \<and> length (PrivateKey_Bytes sk) = 1632
       \<and> length (PublicKey_Bytes pk) = 736"
    using C7_key_serialisation_roundtrip[OF P H g]
    by (simp add: PrivateKeySize_def PublicKeySize_def Kyber512_fields)
  then show ?thesis using P H g by blast
qed

section \<open>Decapsulation and implicit rejection\<close>





end
